theory Spec2Isabelle
  imports Complex_Main "HOL-Library.Monad_Syntax" "HOL-Library.Word"
begin

section \<open>Seam carving: the engine of \<^verbatim>\<open>seam_carving.cpp\<close>\<close>

text \<open>
  The development embeds the four functions of the carving engine,
  \<^verbatim>\<open>computeEnergy\<close>, \<^verbatim>\<open>findSeam\<close>, \<^verbatim>\<open>removeSeam\<close> and \<^verbatim>\<open>seamCarving\<close>, and proves
  the properties of the seam solver, the seam remover and the driver.

  Conventions of the embedding.
  \<^item> A C++ \<^verbatim>\<open>int\<close> is a HOL \<open>int\<close>. Every index the code computes lies between \<open>-1\<close> and the
    row or column count of a matrix, and the loop counters stop at such a count, so no
    32-bit operation of the code wraps.
  \<^item> A finite \<^verbatim>\<open>double\<close> is the HOL \<open>real\<close> it denotes, and the sum of two doubles is the
    exact sum rounded to the nearest binary64 number, ties to the even significand
    (\<open>double_add\<close>). A sum that rounds past the largest finite double is infinite, and
    the two infinities are the reals \<open>2^1024\<close> and \<open>-2^1024\<close>, so that the order of the
    reals is the order of the doubles. NaN is not represented: the energy fields are
    fields of finite values, and no sum of the program adds the two infinities.
  \<^item> A function returns \<open>None\<close> where the C++ program has no defined result: an access
    outside a buffer, or a read of a matrix element that was never written. The source
    has no error value, exception or status code of its own.
  \<^item> Names are the source's. A primed name stands for the source's name where HOL has a
    constant of that name (\<open>image'\<close>), or where a local variable of the source has the
    name of a field (\<open>rows'\<close>, \<open>cols'\<close>).
\<close>

subsection \<open>Matrices and vectors\<close>

text \<open>
  \<^verbatim>\<open>cv::Mat\<close>: the header fields \<^verbatim>\<open>rows\<close> and \<^verbatim>\<open>cols\<close>, and the element buffer as a store
  from (row, column) to the element written there. A matrix built by
  \<^verbatim>\<open>Mat m(rows, cols, type)\<close> holds no element yet; the library rejects a negative size.
\<close>

record 'a Mat =
  rows :: int
  cols :: int
  cell :: "int \<times> int \<Rightarrow> 'a option"

definition Mat_create :: "int \<Rightarrow> int \<Rightarrow> 'a Mat option" where
  "Mat_create r c =
     (if 0 \<le> r \<and> 0 \<le> c then Some \<lparr>rows = r, cols = c, cell = (\<lambda>p. None)\<rparr> else None)"

definition inside :: "'a Mat \<Rightarrow> int \<Rightarrow> int \<Rightarrow> bool" where
  "inside m i j \<longleftrightarrow> 0 \<le> i \<and> i < rows m \<and> 0 \<le> j \<and> j < cols m"

text \<open>
  \<^verbatim>\<open>m.at<T>(i, j)\<close> as a read and as the target of an assignment. The matrices of the
  program are continuous, and \<^verbatim>\<open>at\<close> does not check its indices in a release build: it is
  the element at offset \<open>i * cols + j\<close> of the buffer of \<open>rows * cols\<close> elements. With \<open>j\<close>
  outside \<open>[0, cols)\<close> and the offset inside the buffer, that is an element of another
  row; with the offset outside the buffer the access has no defined result.
\<close>

definition Mat_addr :: "'a Mat \<Rightarrow> int \<Rightarrow> int \<Rightarrow> (int \<times> int) option" where
  "Mat_addr m i j =
     (let k = i * cols m + j
      in if 0 \<le> k \<and> k < rows m * cols m then Some (k div cols m, k mod cols m) else None)"

definition Mat_at :: "'a Mat \<Rightarrow> int \<Rightarrow> int \<Rightarrow> 'a option" where
  "Mat_at m i j = (case Mat_addr m i j of None \<Rightarrow> None | Some p \<Rightarrow> cell m p)"

definition Mat_put :: "'a Mat \<Rightarrow> int \<Rightarrow> int \<Rightarrow> 'a \<Rightarrow> 'a Mat option" where
  "Mat_put m i j v =
     (case Mat_addr m i j of
        None \<Rightarrow> None
      | Some p \<Rightarrow> Some (m\<lparr>cell := (cell m)(p \<mapsto> v)\<rparr>))"

text \<open>\<^verbatim>\<open>std::vector<int>\<close> with \<^verbatim>\<open>operator[]\<close>.\<close>

definition vec_get :: "int list \<Rightarrow> int \<Rightarrow> int option" where
  "vec_get xs i = (if 0 \<le> i \<and> i < int (length xs) then Some (xs ! nat i) else None)"

definition vec_set :: "int list \<Rightarrow> int \<Rightarrow> int \<Rightarrow> int list option" where
  "vec_set xs i v = (if 0 \<le> i \<and> i < int (length xs) then Some (xs[nat i := v]) else None)"

text \<open>
  A matrix every element of which has been written, as a decoded image or a computed
  energy field is. The test runs over the finitely many positions of the matrix.
\<close>

definition Mat_full :: "'a Mat \<Rightarrow> bool" where
  "Mat_full m \<longleftrightarrow>
     list_all (\<lambda>i. list_all (\<lambda>j. cell m (i, j) \<noteq> None) [0..cols m - 1]) [0..rows m - 1]"

text \<open>Conversions between a matrix and the list of its rows, for concrete inputs.\<close>

definition of_rows :: "'a list list \<Rightarrow> 'a Mat" where
  "of_rows xss =
     \<lparr>rows = int (length xss),
      cols = (case xss of [] \<Rightarrow> 0 | xs # _ \<Rightarrow> int (length xs)),
      cell = (\<lambda>(i, j).
        if 0 \<le> i \<and> i < int (length xss) \<and> 0 \<le> j \<and> j < int (length (xss ! nat i))
        then Some (xss ! nat i ! nat j) else None)\<rparr>"

definition to_rows :: "'a Mat \<Rightarrow> 'a option list list" where
  "to_rows m = map (\<lambda>i. map (\<lambda>j. Mat_at m i j) [0..cols m - 1]) [0..rows m - 1]"

subsection \<open>Addition of doubles\<close>

text \<open>
  Rounding to binary64, round to nearest, ties to even. \<open>binade a\<close> is the exponent \<open>e\<close>
  with \<open>2^e \<le> a < 2^(e+1)\<close>; the spacing of the doubles around \<open>a\<close> is \<open>2^(e - 52)\<close>, and
  \<open>2^(-1074)\<close> below the smallest normal number \<open>2^(-1022)\<close>.
\<close>

definition nearest_even :: "real \<Rightarrow> int" where
  "nearest_even q =
     (let f = \<lfloor>q\<rfloor>; d = q - of_int f
      in if d < 1 / 2 then f else if 1 / 2 < d then f + 1 else if even f then f else f + 1)"

function bit_length :: "int \<Rightarrow> int" where
  "bit_length n = (if n \<le> 0 then 0 else 1 + bit_length (n div 2))"
  by pat_completeness auto
termination
  by (relation "measure nat") auto

declare bit_length.simps [simp del]

definition binade :: "real \<Rightarrow> int" where
  "binade a =
     (if 1 \<le> a then bit_length \<lfloor>a\<rfloor> - 1 else - bit_length (\<lceil>1 / a\<rceil> - 1))"

definition pow2 :: "int \<Rightarrow> real" where
  "pow2 e = (if 0 \<le> e then 2 ^ nat e else 1 / 2 ^ nat (- e))"

definition round_pos :: "real \<Rightarrow> real" where
  "round_pos a =
     (let u = pow2 (max (binade a) (- 1022) - 52)
      in of_int (nearest_even (a / u)) * u)"

definition round_double :: "real \<Rightarrow> real" where
  "round_double x = (if x = 0 then 0 else if 0 < x then round_pos x else - round_pos (- x))"

text \<open>
  A sum with an infinite operand is that infinity. A sum of finite operands overflows
  when the rounded value reaches \<open>2^1024\<close>: \<open>round_double\<close> gives \<open>2^1024\<close> exactly from
  \<open>2^1024 - 2^970\<close> on, the midpoint above the largest finite double.
\<close>

definition double_inf :: real where
  "double_inf = 2 ^ 1024"

definition overflow :: "real \<Rightarrow> real" where
  "overflow z =
     (if double_inf \<le> z then double_inf else if z \<le> - double_inf then - double_inf else z)"

definition double_add :: "real \<Rightarrow> real \<Rightarrow> real" where
  "double_add x y =
     (if double_inf \<le> x \<or> double_inf \<le> y then double_inf
      else if x \<le> - double_inf \<or> y \<le> - double_inf then - double_inf
      else overflow (round_double (x + y)))"

subsection \<open>\<^verbatim>\<open>findSeam\<close>\<close>

text \<open>
  The body of the inner loop (lines 43 to 48): the cost above, then the left neighbour
  when \<open>j > 0\<close>, then the right neighbour when \<open>j < cols - 1\<close>, each taken only when
  strictly smaller; the cost is added in place, in double precision, and the offset
  recorded.
\<close>

definition findSeam_cell ::
  "int \<Rightarrow> real Mat \<Rightarrow> int Mat \<Rightarrow> int \<Rightarrow> int \<Rightarrow> (real Mat \<times> int Mat) option" where
  "findSeam_cell cols' cost backtrack i j = do {
     minCost \<leftarrow> Mat_at cost (i - 1) j;
     let offset = (0::int);
     (minCost, offset) \<leftarrow>
       (if j > 0 then do {
          left \<leftarrow> Mat_at cost (i - 1) (j - 1);
          Some (if left < minCost then (left, - 1) else (minCost, offset)) }
        else Some (minCost, offset));
     (minCost, offset) \<leftarrow>
       (if j < cols' - 1 then do {
          right \<leftarrow> Mat_at cost (i - 1) (j + 1);
          Some (if right < minCost then (right, 1) else (minCost, offset)) }
        else Some (minCost, offset));
     old \<leftarrow> Mat_at cost i j;
     cost \<leftarrow> Mat_put cost i j (double_add old minCost);
     backtrack \<leftarrow> Mat_put backtrack i j offset;
     Some (cost, backtrack) }"

text \<open>The loop over the columns of row \<open>i\<close> (line 42).\<close>

function findSeam_cols ::
  "int \<Rightarrow> real Mat \<Rightarrow> int Mat \<Rightarrow> int \<Rightarrow> int \<Rightarrow> (real Mat \<times> int Mat) option" where
  "findSeam_cols cols' cost backtrack i j =
     (if j < cols' then
        (case findSeam_cell cols' cost backtrack i j of
           None \<Rightarrow> None
         | Some (cost, backtrack) \<Rightarrow> findSeam_cols cols' cost backtrack i (j + 1))
      else Some (cost, backtrack))"
  by pat_completeness auto
termination
  by (relation "measure (\<lambda>(cols', cost, backtrack, i, j). nat (cols' - j))") auto

declare findSeam_cols.simps [simp del]

text \<open>The loop over the rows, from row 1 (line 41).\<close>

function findSeam_rows ::
  "int \<Rightarrow> int \<Rightarrow> real Mat \<Rightarrow> int Mat \<Rightarrow> int \<Rightarrow> (real Mat \<times> int Mat) option" where
  "findSeam_rows rows' cols' cost backtrack i =
     (if i < rows' then
        (case findSeam_cols cols' cost backtrack i 0 of
           None \<Rightarrow> None
         | Some (cost, backtrack) \<Rightarrow> findSeam_rows rows' cols' cost backtrack (i + 1))
      else Some (cost, backtrack))"
  by pat_completeness auto
termination
  by (relation "measure (\<lambda>(rows', cols', cost, backtrack, i). nat (rows' - i))") auto

declare findSeam_rows.simps [simp del]

text \<open>
  \<^verbatim>\<open>std::min_element\<close> over the \<open>n\<close> elements of row \<open>r\<close>, as an index: on an empty range
  it returns the start of the range; otherwise it scans from the second element and
  moves to an element only when that element is strictly smaller.
\<close>

function min_element_loop :: "real Mat \<Rightarrow> int \<Rightarrow> int \<Rightarrow> int \<Rightarrow> int \<Rightarrow> int option" where
  "min_element_loop m r last' smallest first =
     (if first < last' then
        (case Mat_at m r first of
           None \<Rightarrow> None
         | Some a \<Rightarrow>
             (case Mat_at m r smallest of
                None \<Rightarrow> None
              | Some b \<Rightarrow>
                  min_element_loop m r last' (if a < b then first else smallest) (first + 1)))
      else Some smallest)"
  by pat_completeness auto
termination
  by (relation "measure (\<lambda>(m, r, last', smallest, first). nat (last' - first))") auto

declare min_element_loop.simps [simp del]

definition min_element :: "real Mat \<Rightarrow> int \<Rightarrow> int \<Rightarrow> int option" where
  "min_element m r n = (if n \<le> 0 then Some 0 else min_element_loop m r n 0 1)"

text \<open>The backtracking loop (lines 53 to 55), from row \<open>rows - 2\<close> down to row 0.\<close>

function findSeam_back :: "int Mat \<Rightarrow> int list \<Rightarrow> int \<Rightarrow> int list option" where
  "findSeam_back backtrack seam i =
     (if i \<ge> 0 then
        (case vec_get seam (i + 1) of
           None \<Rightarrow> None
         | Some s \<Rightarrow>
             (case Mat_at backtrack (i + 1) s of
                None \<Rightarrow> None
              | Some b \<Rightarrow>
                  (case vec_set seam i (s + b) of
                     None \<Rightarrow> None
                   | Some seam \<Rightarrow> findSeam_back backtrack seam (i - 1))))
      else Some seam)"
  by pat_completeness auto
termination
  by (relation "measure (\<lambda>(backtrack, seam, i). nat (i + 1))") auto

declare findSeam_back.simps [simp del]

text \<open>
  The first half of \<^verbatim>\<open>findSeam\<close> (lines 38 to 50): \<^verbatim>\<open>cost\<close> starts as a copy of the energy
  field, \<^verbatim>\<open>backtrack\<close> as a fresh matrix, and the two loops fill them.
\<close>

definition findSeam_tables :: "real Mat \<Rightarrow> (real Mat \<times> int Mat) option" where
  "findSeam_tables energy = do {
     let rows' = rows energy;
     let cols' = cols energy;
     let cost = energy;
     backtrack \<leftarrow> Mat_create rows' cols';
     findSeam_rows rows' cols' cost backtrack 1 }"

definition findSeam :: "real Mat \<Rightarrow> int list option" where
  "findSeam energy = do {
     let rows' = rows energy;
     let cols' = cols energy;
     (cost, backtrack) \<leftarrow> findSeam_tables energy;
     let seam = replicate (nat rows') (0::int);
     k \<leftarrow> min_element cost (rows' - 1) cols';
     seam \<leftarrow> vec_set seam (rows' - 1) k;
     findSeam_back backtrack seam (rows' - 2) }"

subsection \<open>\<^verbatim>\<open>removeSeam\<close>\<close>

type_synonym Vec3b = "8 word \<times> 8 word \<times> 8 word"

text \<open>The first inner loop (lines 73 to 75): columns left of the seam keep their index.\<close>

function removeSeam_left ::
  "Vec3b Mat \<Rightarrow> int list \<Rightarrow> Vec3b Mat \<Rightarrow> int \<Rightarrow> int \<Rightarrow> Vec3b Mat option" where
  "removeSeam_left image' seam output i j =
     (case vec_get seam i of
        None \<Rightarrow> None
      | Some s \<Rightarrow>
          (if j < s then
             (case Mat_at image' i j of
                None \<Rightarrow> None
              | Some p \<Rightarrow>
                  (case Mat_put output i j p of
                     None \<Rightarrow> None
                   | Some output \<Rightarrow> removeSeam_left image' seam output i (j + 1)))
           else Some output))"
  by pat_completeness auto
termination
  by (relation "measure (\<lambda>(image', seam, output, i, j). nat (the (vec_get seam i) - j))") auto

declare removeSeam_left.simps [simp del]

text \<open>The second inner loop (lines 76 to 78): columns right of the seam move one to the left.\<close>

function removeSeam_right ::
  "Vec3b Mat \<Rightarrow> int \<Rightarrow> Vec3b Mat \<Rightarrow> int \<Rightarrow> int \<Rightarrow> Vec3b Mat option" where
  "removeSeam_right image' cols' output i j =
     (if j < cols' then
        (case Mat_at image' i j of
           None \<Rightarrow> None
         | Some p \<Rightarrow>
             (case Mat_put output i (j - 1) p of
                None \<Rightarrow> None
              | Some output \<Rightarrow> removeSeam_right image' cols' output i (j + 1)))
      else Some output)"
  by pat_completeness auto
termination
  by (relation "measure (\<lambda>(image', cols', output, i, j). nat (cols' - j))") auto

declare removeSeam_right.simps [simp del]

text \<open>The loop over the rows (line 72).\<close>

function removeSeam_rows ::
  "Vec3b Mat \<Rightarrow> int list \<Rightarrow> int \<Rightarrow> int \<Rightarrow> Vec3b Mat \<Rightarrow> int \<Rightarrow> Vec3b Mat option" where
  "removeSeam_rows image' seam rows' cols' output i =
     (if i < rows' then
        (case removeSeam_left image' seam output i 0 of
           None \<Rightarrow> None
         | Some output \<Rightarrow>
             (case vec_get seam i of
                None \<Rightarrow> None
              | Some s \<Rightarrow>
                  (case removeSeam_right image' cols' output i (s + 1) of
                     None \<Rightarrow> None
                   | Some output \<Rightarrow> removeSeam_rows image' seam rows' cols' output (i + 1))))
      else Some output)"
  by pat_completeness auto
termination
  by (relation "measure (\<lambda>(image', seam, rows', cols', output, i). nat (rows' - i))") auto

declare removeSeam_rows.simps [simp del]

definition removeSeam :: "Vec3b Mat \<Rightarrow> int list \<Rightarrow> Vec3b Mat option" where
  "removeSeam image' seam = do {
     let rows' = rows image';
     let cols' = cols image';
     output \<leftarrow> Mat_create rows' (cols' - 1);
     removeSeam_rows image' seam rows' cols' output 0 }"

subsection \<open>\<^verbatim>\<open>computeEnergy\<close> and \<^verbatim>\<open>seamCarving\<close>\<close>

text \<open>
  \<^verbatim>\<open>computeEnergy\<close> calls two functions of the OpenCV library, \<^verbatim>\<open>cvtColor\<close> and \<^verbatim>\<open>Sobel\<close>,
  whose code is not part of the program. They are parameters of the embedding:
  \<open>cvtColor\<close> maps a colour image to a grey image, \<open>Sobel gray dx dy ksize\<close> maps a grey
  image to a matrix of doubles, and either may fail.
\<close>

record opencv =
  cvtColor :: "Vec3b Mat \<Rightarrow> 8 word Mat option"
  Sobel :: "8 word Mat \<Rightarrow> int \<Rightarrow> int \<Rightarrow> int \<Rightarrow> real Mat option"

text \<open>The matrix expressions \<^verbatim>\<open>abs(m)\<close> and \<^verbatim>\<open>a + b\<close>, element by element.\<close>

definition Mat_abs :: "real Mat \<Rightarrow> real Mat" where
  "Mat_abs m = m\<lparr>cell := (\<lambda>p. map_option abs (cell m p))\<rparr>"

definition Mat_add :: "real Mat \<Rightarrow> real Mat \<Rightarrow> real Mat option" where
  "Mat_add a b =
     (if rows a = rows b \<and> cols a = cols b then
        Some \<lparr>rows = rows a, cols = cols a,
              cell = (\<lambda>p. case cell a p of
                             None \<Rightarrow> None
                           | Some x \<Rightarrow>
                               (case cell b p of None \<Rightarrow> None | Some y \<Rightarrow> Some (double_add x y)))\<rparr>
      else None)"

definition computeEnergy :: "opencv \<Rightarrow> Vec3b Mat \<Rightarrow> real Mat option" where
  "computeEnergy cv image' = do {
     gray \<leftarrow> cvtColor cv image';
     grad_x \<leftarrow> Sobel cv gray 1 0 3;
     grad_y \<leftarrow> Sobel cv gray 0 1 3;
     let abs_grad_x = Mat_abs grad_x;
     let abs_grad_y = Mat_abs grad_y;
     energy \<leftarrow> Mat_add abs_grad_x abs_grad_y;
     Some energy }"

text \<open>The carving loop (lines 95 to 99).\<close>

function seamCarving_loop :: "opencv \<Rightarrow> Vec3b Mat \<Rightarrow> int \<Rightarrow> int \<Rightarrow> Vec3b Mat option" where
  "seamCarving_loop cv image' numSeams i =
     (if i < numSeams then
        (case computeEnergy cv image' of
           None \<Rightarrow> None
         | Some energy \<Rightarrow>
             (case findSeam energy of
                None \<Rightarrow> None
              | Some seam \<Rightarrow>
                  (case removeSeam image' seam of
                     None \<Rightarrow> None
                   | Some image' \<Rightarrow> seamCarving_loop cv image' numSeams (i + 1))))
      else Some image')"
  by pat_completeness auto
termination
  by (relation "measure (\<lambda>(cv, image', numSeams, i). nat (numSeams - i))") auto

declare seamCarving_loop.simps [simp del]

text \<open>
  What \<^verbatim>\<open>seamCarving\<close> writes to \<^verbatim>\<open>cout\<close>: the operands of the \<^verbatim>\<open><<\<close> chain in order.
  The function returns the written items together with its result. \<^verbatim>\<open>image.clone()\<close> is
  taken as a matrix equal to \<^verbatim>\<open>image\<close>, which it is for every image that has an element.
\<close>

datatype token = Str string | Num int | Endl

definition seamCarving :: "opencv \<Rightarrow> Vec3b Mat \<Rightarrow> int \<Rightarrow> token list \<times> Vec3b Mat option" where
  "seamCarving cv image' numSeams =
     (if numSeams \<ge> cols image' then
        ([Str ''Error: numSeams ('', Num numSeams, Str '') exceeds image width ('',
          Num (cols image'), Str '')!'', Endl],
         Some image')
      else ([], seamCarving_loop cv image' numSeams 0))"

subsection \<open>Reference functions for the proofs\<close>

text \<open>
  The value of an element, read through \<^verbatim>\<open>at\<close>; used where a total function of the
  position is convenient (the default is never reached inside a fully written matrix).
\<close>

definition Mat_val :: "real Mat \<Rightarrow> int \<Rightarrow> int \<Rightarrow> real" where
  "Mat_val m i j = (case Mat_at m i j of Some v \<Rightarrow> v | None \<Rightarrow> 0)"

text \<open>
  The choice made by the body of the inner loop, as a function of the previous cost row:
  the selected minimum and the offset of the cell it was read from.
\<close>

definition best_above :: "(int \<Rightarrow> real) \<Rightarrow> int \<Rightarrow> int \<Rightarrow> real \<times> int" where
  "best_above prev cols' j =
     (let (m, off) = (prev j, 0::int);
          (m, off) = (if j > 0 \<and> prev (j - 1) < m then (prev (j - 1), - 1) else (m, off));
          (m, off) = (if j < cols' - 1 \<and> prev (j + 1) < m then (prev (j + 1), 1) else (m, off))
      in (m, off))"

text \<open>
  The recurrence of the dynamic program: row 0 is the energy row, and each later row adds
  the selected minimum of the row above, in double precision. \<open>dp_off e i j\<close> is the
  offset selected at \<open>(i, j)\<close>.
\<close>

fun dp_row :: "real Mat \<Rightarrow> nat \<Rightarrow> int \<Rightarrow> real" where
  "dp_row e 0 j = Mat_val e 0 j"
| "dp_row e (Suc i) j =
     double_add (Mat_val e (int (Suc i)) j) (fst (best_above (dp_row e i) (cols e) j))"

definition dp_off :: "real Mat \<Rightarrow> int \<Rightarrow> int \<Rightarrow> int" where
  "dp_off e i j = snd (best_above (dp_row e (nat (i - 1))) (cols e) j)"

text \<open>
  The contents of the two tables after the inner loop has run over the columns
  \<open>j, \<dots>, w - 1\<close> of row \<open>i\<close>, and the invariant of the outer loop: the rows above \<open>i\<close>
  hold the recurrence, the other rows still hold the energies.
\<close>

definition row_done :: "real Mat \<Rightarrow> int \<Rightarrow> int \<Rightarrow> int \<Rightarrow> int \<times> int \<Rightarrow> real option" where
  "row_done cost w i j p =
     (if fst p = i \<and> j \<le> snd p \<and> snd p < w
      then Some (double_add (Mat_val cost i (snd p))
                   (fst (best_above (Mat_val cost (i - 1)) w (snd p))))
      else cell cost p)"

definition row_offs :: "real Mat \<Rightarrow> int Mat \<Rightarrow> int \<Rightarrow> int \<Rightarrow> int \<Rightarrow> int \<times> int \<Rightarrow> int option" where
  "row_offs cost backtrack w i j p =
     (if fst p = i \<and> j \<le> snd p \<and> snd p < w
      then Some (snd (best_above (Mat_val cost (i - 1)) w (snd p)))
      else cell backtrack p)"

definition dp_inv :: "real Mat \<Rightarrow> real Mat \<Rightarrow> int \<Rightarrow> bool" where
  "dp_inv e cost i \<longleftrightarrow>
     rows cost = rows e \<and> cols cost = cols e \<and>
     (\<forall>a b. inside e a b \<longrightarrow>
        cell cost (a, b) = (if a < i then Some (dp_row e (nat a) b) else cell e (a, b)))"

text \<open>
  Vertical paths: one column per row, every column inside the field, and the columns of
  adjacent rows at most one apart. \<open>path_energy\<close> is the exact sum of the energies of the
  cells of a path. \<open>path_cost\<close> is their sum in double precision, accumulated from row 0
  downwards as the dynamic program accumulates it: \<open>rounded_sum e p n\<close> is the accumulated
  sum of the rows \<open>0, \<dots>, n\<close>.
\<close>

definition path_energy :: "real Mat \<Rightarrow> int list \<Rightarrow> real" where
  "path_energy e p = (\<Sum>i\<leftarrow>[0..<length p]. Mat_val e (int i) (p ! i))"

fun rounded_sum :: "real Mat \<Rightarrow> int list \<Rightarrow> nat \<Rightarrow> real" where
  "rounded_sum e p 0 = Mat_val e 0 (p ! 0)"
| "rounded_sum e p (Suc n) = double_add (Mat_val e (int (Suc n)) (p ! Suc n)) (rounded_sum e p n)"

definition path_cost :: "real Mat \<Rightarrow> int list \<Rightarrow> real" where
  "path_cost e p = rounded_sum e p (length p - 1)"

fun connected :: "int list \<Rightarrow> bool" where
  "connected (a # b # r) \<longleftrightarrow> \<bar>b - a\<bar> \<le> 1 \<and> connected (b # r)"
| "connected [a] \<longleftrightarrow> True"
| "connected [] \<longleftrightarrow> True"

definition vertical_path :: "int \<Rightarrow> int \<Rightarrow> int list \<Rightarrow> bool" where
  "vertical_path h w p \<longleftrightarrow>
     int (length p) = h \<and> list_all (\<lambda>c. 0 \<le> c \<and> c < w) p \<and> connected p"

text \<open>
  For \<^verbatim>\<open>removeSeam\<close>: the contents of the output after the first inner loop has copied
  the columns \<open>j, \<dots>, s - 1\<close> of row \<open>i\<close>, after the second inner loop has moved the
  columns \<open>j, \<dots>, w - 1\<close>, after both loops of a row, and after the rows \<open>i, \<dots>, h - 1\<close>.
  \<open>seam_ok w seam i\<close>: the seam has an entry for row \<open>i\<close> and it is a column of the image.
\<close>

definition left_done :: "Vec3b Mat \<Rightarrow> Vec3b Mat \<Rightarrow> int \<Rightarrow> int \<Rightarrow> int \<Rightarrow> int \<times> int \<Rightarrow> Vec3b option" where
  "left_done image' output i j s p =
     (if fst p = i \<and> j \<le> snd p \<and> snd p < s then cell image' p else cell output p)"

definition right_done :: "Vec3b Mat \<Rightarrow> Vec3b Mat \<Rightarrow> int \<Rightarrow> int \<Rightarrow> int \<Rightarrow> int \<times> int \<Rightarrow> Vec3b option" where
  "right_done image' output w i j p =
     (if fst p = i \<and> j - 1 \<le> snd p \<and> snd p < w - 1 then cell image' (i, snd p + 1) else cell output p)"

definition row_moved :: "Vec3b Mat \<Rightarrow> Vec3b Mat \<Rightarrow> int \<Rightarrow> int \<Rightarrow> int \<Rightarrow> int \<times> int \<Rightarrow> Vec3b option" where
  "row_moved image' out w i s p =
     (if fst p = i \<and> 0 \<le> snd p \<and> snd p < w - 1
      then (if snd p < s then cell image' p else cell image' (i, snd p + 1))
      else cell out p)"

definition rows_done ::
  "Vec3b Mat \<Rightarrow> int list \<Rightarrow> int \<Rightarrow> int \<Rightarrow> Vec3b Mat \<Rightarrow> int \<Rightarrow> int \<times> int \<Rightarrow> Vec3b option" where
  "rows_done image' seam h w output i p =
     (if i \<le> fst p \<and> fst p < h \<and> 0 \<le> snd p \<and> snd p < w - 1
      then (if snd p < seam ! nat (fst p) then cell image' p else cell image' (fst p, snd p + 1))
      else cell output p)"

definition seam_ok :: "int \<Rightarrow> int list \<Rightarrow> int \<Rightarrow> bool" where
  "seam_ok w seam i \<longleftrightarrow> 0 \<le> i \<and> i < int (length seam) \<and> 0 \<le> seam ! nat i \<and> seam ! nat i \<le> w - 1"

text \<open>
  A field of integer energies between 0 and \<open>b\<close>, every element written. Sums of
  absolute responses of the 3 by 3 Sobel kernels on 8-bit samples are of this kind, with
  \<open>b = 2040\<close>.
\<close>

definition integer_bounded :: "real Mat \<Rightarrow> int \<Rightarrow> bool" where
  "integer_bounded e b \<longleftrightarrow>
     list_all (\<lambda>i. list_all (\<lambda>j.
         (case cell e (i, j) of
            None \<Rightarrow> False
          | Some v \<Rightarrow> v = of_int \<lfloor>v\<rfloor> \<and> 0 \<le> v \<and> v \<le> of_int b))
       [0..cols e - 1]) [0..rows e - 1]"

text \<open>The exponent of the spacing of the doubles around \<open>a\<close>.\<close>

definition ulp_exp :: "real \<Rightarrow> int" where
  "ulp_exp a = max (binade a) (- 1022) - 52"

subsection \<open>The library functions\<close>

text \<open>
  What the driver needs of the two library functions: on a fully written matrix with at
  least one row and one column, \<open>cvtColor\<close> and the two calls of \<open>Sobel\<close> in
  \<^verbatim>\<open>computeEnergy\<close> (derivative orders \<open>(1, 0)\<close> and \<open>(0, 1)\<close>, kernel size 3) return a fully
  written matrix of the same size.
\<close>

definition opencv_contract :: "opencv \<Rightarrow> bool" where
  "opencv_contract cv \<longleftrightarrow>
     (\<forall>img. 1 \<le> rows img \<and> 1 \<le> cols img \<and> Mat_full img \<longrightarrow>
        (\<exists>g. cvtColor cv img = Some g \<and> rows g = rows img \<and> cols g = cols img \<and> Mat_full g)) \<and>
     (\<forall>g dx dy. 1 \<le> rows g \<and> 1 \<le> cols g \<and> Mat_full g \<and> ((dx, dy) = (1, 0) \<or> (dx, dy) = (0, 1)) \<longrightarrow>
        (\<exists>d. Sobel cv g dx dy 3 = Some d \<and> rows d = rows g \<and> cols d = cols g \<and> Mat_full d))"

text \<open>
  One instance of the interface, used to run the driver on concrete images: a
  luminance in fixed-point arithmetic with the weights of ITU-R BT.601 on pixels in
  blue, green, red order, and the 3 by 3 Sobel kernels on a border reflected about the
  edge pixel.
\<close>

definition gray_of :: "Vec3b \<Rightarrow> 8 word" where
  "gray_of p =
     (case p of (b, g, r) \<Rightarrow>
        word_of_int ((1868 * uint b + 9617 * uint g + 4899 * uint r + 8192) div 16384))"

definition ref_cvtColor :: "Vec3b Mat \<Rightarrow> 8 word Mat option" where
  "ref_cvtColor m =
     (if 1 \<le> rows m \<and> 1 \<le> cols m
      then Some \<lparr>rows = rows m, cols = cols m, cell = (\<lambda>p. map_option gray_of (cell m p))\<rparr>
      else None)"

definition mirror :: "int \<Rightarrow> int \<Rightarrow> int" where
  "mirror n k = (if n \<le> 1 then 0 else if k < 0 then - k else if n \<le> k then 2 * n - 2 - k else k)"

definition gray_at :: "8 word Mat \<Rightarrow> int \<Rightarrow> int \<Rightarrow> real" where
  "gray_at g i j =
     (case cell g (mirror (rows g) i, mirror (cols g) j) of
        Some v \<Rightarrow> real_of_int (uint v)
      | None \<Rightarrow> 0)"

definition ref_Sobel :: "8 word Mat \<Rightarrow> int \<Rightarrow> int \<Rightarrow> int \<Rightarrow> real Mat option" where
  "ref_Sobel g dx dy ksize =
     (if 1 \<le> rows g \<and> 1 \<le> cols g \<and> ksize = 3 \<and> ((dx, dy) = (1, 0) \<or> (dx, dy) = (0, 1)) then
        Some \<lparr>rows = rows g, cols = cols g,
              cell = (\<lambda>(i, j).
                if 0 \<le> i \<and> i < rows g \<and> 0 \<le> j \<and> j < cols g then
                  Some (if dx = 1
                        then (gray_at g (i - 1) (j + 1) + 2 * gray_at g i (j + 1) + gray_at g (i + 1) (j + 1))
                           - (gray_at g (i - 1) (j - 1) + 2 * gray_at g i (j - 1) + gray_at g (i + 1) (j - 1))
                        else (gray_at g (i + 1) (j - 1) + 2 * gray_at g (i + 1) j + gray_at g (i + 1) (j + 1))
                           - (gray_at g (i - 1) (j - 1) + 2 * gray_at g (i - 1) j + gray_at g (i - 1) (j + 1)))
                else None)\<rparr>
      else None)"

definition ref_cv :: opencv where
  "ref_cv = \<lparr>cvtColor = ref_cvtColor, Sobel = ref_Sobel\<rparr>"

subsection \<open>Concrete inputs\<close>

text \<open>The 3 by 3 energy field of the second end-to-end scenario.\<close>

definition field3 :: "real Mat" where
  "field3 = of_rows [[1, 3, 1], [3, 1, 3], [1, 3, 1]]"

text \<open>A 2 by 4 field with ties in every row.\<close>

definition field_ties :: "real Mat" where
  "field_ties = of_rows [[2, 1, 1, 2], [5, 5, 5, 5]]"

text \<open>Two small colour images with pairwise different pixels.\<close>

definition image_2x3 :: "Vec3b Mat" where
  "image_2x3 = of_rows [[(1, 2, 3), (4, 5, 6), (7, 8, 9)], [(10, 11, 12), (13, 14, 15), (16, 17, 18)]]"

definition image_1x2 :: "Vec3b Mat" where
  "image_1x2 = of_rows [[(1, 2, 3), (4, 5, 6)]]"

text \<open>
  The 4 by 4 uniform image of the first end-to-end scenario, and a 3 by 4 image with a
  bright diagonal.
\<close>

definition image_uniform :: "Vec3b Mat" where
  "image_uniform = of_rows (replicate 4 (replicate 4 (128, 128, 128)))"

definition image_3x4 :: "Vec3b Mat" where
  "image_3x4 = of_rows
     [[(10, 10, 10), (200, 200, 200), (20, 20, 20), (30, 30, 30)],
      [(10, 10, 10), (20, 20, 20), (200, 200, 200), (30, 30, 30)],
      [(10, 10, 10), (20, 20, 20), (30, 30, 30), (200, 200, 200)]]"

text \<open>Energy fields without columns or without rows.\<close>

definition field_1x0 :: "real Mat" where
  "field_1x0 = of_rows [[]]"

definition field_0x0 :: "real Mat" where
  "field_0x0 = of_rows []"

definition field_2x0 :: "real Mat" where
  "field_2x0 = of_rows [[], []]"

text \<open>
  A field with energies of the size of \<open>2^53\<close>, where the sum \<open>2^53 + 1\<close> is not a double.
\<close>

definition field_big :: "real Mat" where
  "field_big = of_rows [[1, 9, 0], [9007199254740992, 18014398509481984, 9007199254740992]]"

section \<open>Basic facts\<close>

subsection \<open>Rounding\<close>

text \<open>
  Two facts about the addition of doubles carry the proofs: it is monotone, and it is exact
  where the sum is an integer of magnitude at most \<open>2^53\<close>.
\<close>

lemma pow2_powi: "pow2 e = 2 powi e"
  by (simp add: pow2_def power_int_def field_simps power_inverse)

lemma pow2_pos: "0 < pow2 e"
  by (simp add: pow2_powi)

lemma pow2_add: "pow2 (a + b) = pow2 a * pow2 b"
  by (simp add: pow2_powi power_int_add)

lemma pow2_mono: "a \<le> b \<Longrightarrow> pow2 a \<le> pow2 b"
  by (simp add: pow2_powi power_int_increasing)

lemma pow2_less_imp: "pow2 a < pow2 b \<Longrightarrow> a < b"
  using pow2_mono[of b a] by (cases "a < b") auto

lemma pow2_nonneg_int: "0 \<le> e \<Longrightarrow> pow2 e = of_int (2 ^ nat e)"
  by (simp add: pow2_def)

lemma pow2_0: "pow2 0 = 1"
  by (simp add: pow2_def)

lemma bit_length_bounds:
  "0 < n \<Longrightarrow> 1 \<le> bit_length n \<and> 2 ^ nat (bit_length n - 1) \<le> n \<and> n < 2 ^ nat (bit_length n)"
proof (induction n rule: bit_length.induct)
  case (1 n)
  show ?case
  proof (cases "n div 2 \<le> 0")
    case True
    then have n1: "n = 1" using 1(2) by linarith
    have "bit_length (1 div 2) = 0" by (subst bit_length.simps) simp
    then have "bit_length 1 = 1" by (subst bit_length.simps) simp
    then show ?thesis using n1 by simp
  next
    case False
    then have pos: "0 < n div 2" by simp
    have ih: "1 \<le> bit_length (n div 2) \<and> 2 ^ nat (bit_length (n div 2) - 1) \<le> n div 2 \<and>
        n div 2 < 2 ^ nat (bit_length (n div 2))"
      using 1(1) 1(2) pos by simp
    let ?k = "bit_length (n div 2)"
    have bl: "bit_length n = 1 + ?k" using 1(2) by (subst bit_length.simps) simp
    have kge: "1 \<le> ?k" using ih by simp
    have k: "nat (1 + ?k - 1) = Suc (nat (?k - 1))" "nat (1 + ?k) = Suc (nat ?k)"
      using kge by arith+
    have lo: "2 * 2 ^ nat (?k - 1) \<le> n"
    proof -
      have "2 * 2 ^ nat (?k - 1) \<le> 2 * (n div 2)" using ih by simp
      also have "\<dots> \<le> n" by simp
      finally show ?thesis .
    qed
    have hi: "n < 2 * 2 ^ nat ?k"
    proof -
      have "n div 2 + 1 \<le> 2 ^ nat ?k" using ih by simp
      then have "2 * (n div 2) + 2 \<le> 2 * 2 ^ nat ?k" by simp
      moreover have "n < 2 * (n div 2) + 2" by presburger
      ultimately show ?thesis by linarith
    qed
    show ?thesis using bl k lo hi ih by simp
  qed
qed

lemma binade_bounds:
  assumes "0 < a"
  shows "pow2 (binade a) \<le> a" and "a < pow2 (binade a + 1)"
proof -
  have "pow2 (binade a) \<le> a \<and> a < pow2 (binade a + 1)"
  proof (cases "1 \<le> a")
    case True
    let ?n = "\<lfloor>a\<rfloor>"
    have n: "0 < ?n" using True by simp
    note b = bit_length_bounds[OF n]
    have e: "binade a = bit_length ?n - 1" using True by (simp add: binade_def)
    have "pow2 (bit_length ?n - 1) = of_int (2 ^ nat (bit_length ?n - 1))"
      using b by (intro pow2_nonneg_int) simp
    also have "\<dots> \<le> of_int ?n" using b by (simp only: of_int_le_iff)
    also have "\<dots> \<le> a" by simp
    finally have lo: "pow2 (binade a) \<le> a" using e by simp
    have "a < of_int (?n + 1)" by linarith
    also have "\<dots> \<le> of_int (2 ^ nat (bit_length ?n))"
      using b by (simp only: of_int_le_iff) simp
    also have "\<dots> = pow2 (bit_length ?n)"
      using b by (intro pow2_nonneg_int[symmetric]) simp
    finally have "a < pow2 (binade a + 1)" using e by simp
    then show ?thesis using lo by simp
  next
    case False
    then have a1: "a < 1" by simp
    let ?b = "1 / a"
    have b1: "1 < ?b" using assms a1 by simp
    let ?n = "\<lceil>?b\<rceil>"
    have n2: "2 \<le> ?n" using b1 by linarith
    let ?m = "?n - 1"
    have m: "0 < ?m" using n2 by simp
    note bb = bit_length_bounds[OF m]
    let ?t = "bit_length ?m"
    have e: "binade a = - ?t" using False by (simp add: binade_def)
    have up: "?b \<le> pow2 ?t"
    proof -
      have "?b \<le> of_int ?n" by linarith
      also have "\<dots> \<le> of_int (2 ^ nat ?t)" using bb by (simp only: of_int_le_iff) simp
      also have "\<dots> = pow2 ?t" using bb by (intro pow2_nonneg_int[symmetric]) simp
      finally show ?thesis .
    qed
    have dn: "pow2 (?t - 1) < ?b"
    proof -
      have "pow2 (?t - 1) = of_int (2 ^ nat (?t - 1))" using bb by (intro pow2_nonneg_int) simp
      also have "\<dots> \<le> of_int ?m" using bb by (simp only: of_int_le_iff)
      also have "\<dots> < ?b" by linarith
      finally show ?thesis .
    qed
    have inv: "pow2 (- ?t) = inverse (pow2 ?t)" "pow2 (- ?t + 1) = inverse (pow2 (?t - 1))"
    proof -
      show "pow2 (- ?t) = inverse (pow2 ?t)" by (simp add: pow2_powi power_int_minus)
      have "- ?t + 1 = - (?t - 1)" by simp
      then show "pow2 (- ?t + 1) = inverse (pow2 (?t - 1))"
        by (simp only: pow2_powi power_int_minus)
    qed
    have ia: "inverse ?b = a" by simp
    have lo: "pow2 (- ?t) \<le> a"
    proof -
      have "0 < ?b" using b1 by linarith
      then have "inverse (pow2 ?t) \<le> inverse ?b" using up le_imp_inverse_le by blast
      then show ?thesis using inv(1) ia by simp
    qed
    have hi: "a < pow2 (- ?t + 1)"
    proof -
      have "inverse ?b < inverse (pow2 (?t - 1))"
        using dn pow2_pos[of "?t - 1"] less_imp_inverse_less by blast
      then show ?thesis using inv(2) ia by simp
    qed
    show ?thesis using lo hi e by simp
  qed
  then show "pow2 (binade a) \<le> a" and "a < pow2 (binade a + 1)" by simp_all
qed

lemma binade_mono:
  assumes "0 < x" "x \<le> y"
  shows "binade x \<le> binade y"
proof -
  have "pow2 (binade x) \<le> x" using binade_bounds(1)[OF assms(1)] .
  also have "\<dots> \<le> y" by (rule assms(2))
  also have "\<dots> < pow2 (binade y + 1)" using binade_bounds(2)[of y] assms by simp
  finally have "binade x < binade y + 1" by (rule pow2_less_imp)
  then show ?thesis by simp
qed

lemma nearest_even_bounds: "\<lfloor>q\<rfloor> \<le> nearest_even q" "nearest_even q \<le> \<lfloor>q\<rfloor> + 1"
  by (auto simp: nearest_even_def Let_def)

lemma nearest_even_int [simp]: "nearest_even (of_int n) = n"
  by (simp add: nearest_even_def Let_def)

lemma nearest_even_mono:
  assumes "q \<le> r"
  shows "nearest_even q \<le> nearest_even r"
proof (cases "\<lfloor>q\<rfloor> = \<lfloor>r\<rfloor>")
  case True
  have "q - of_int \<lfloor>q\<rfloor> \<le> r - of_int \<lfloor>r\<rfloor>" using assms True by simp
  then show ?thesis using True by (auto simp: nearest_even_def Let_def)
next
  case False
  have "\<lfloor>q\<rfloor> \<le> \<lfloor>r\<rfloor>" using assms by (rule floor_mono)
  then have "\<lfloor>q\<rfloor> + 1 \<le> \<lfloor>r\<rfloor>" using False by simp
  then show ?thesis using nearest_even_bounds(2)[of q] nearest_even_bounds(1)[of r] by linarith
qed

lemma nearest_even_ge_int: "of_int m \<le> q \<Longrightarrow> m \<le> nearest_even q"
  using nearest_even_mono[of "of_int m" q] by simp

lemma nearest_even_le_int: "q \<le> of_int m \<Longrightarrow> nearest_even q \<le> m"
  using nearest_even_mono[of q "of_int m"] by simp

lemma round_pos_alt: "round_pos a = of_int (nearest_even (a / pow2 (ulp_exp a))) * pow2 (ulp_exp a)"
  by (simp add: round_pos_def ulp_exp_def Let_def)

lemma round_pos_nonneg:
  assumes "0 < a"
  shows "0 \<le> round_pos a"
proof -
  have "of_int 0 \<le> a / pow2 (ulp_exp a)" using assms pow2_pos[of "ulp_exp a"] by simp
  then have "0 \<le> nearest_even (a / pow2 (ulp_exp a))" by (rule nearest_even_ge_int)
  then show ?thesis using pow2_pos[of "ulp_exp a"] by (simp add: round_pos_alt)
qed

lemma round_pos_mono:
  assumes x: "0 < x" and xy: "x \<le> y"
  shows "round_pos x \<le> round_pos y"
proof -
  have y: "0 < y" using x xy by simp
  have be: "binade x \<le> binade y" using x xy by (rule binade_mono)
  then have ue: "ulp_exp x \<le> ulp_exp y" by (simp add: ulp_exp_def)
  show ?thesis
  proof (cases "ulp_exp x = ulp_exp y")
    case True
    let ?u = "pow2 (ulp_exp y)"
    have "x / ?u \<le> y / ?u" using xy pow2_pos[of "ulp_exp y"] by (simp add: divide_right_mono)
    then have "nearest_even (x / ?u) \<le> nearest_even (y / ?u)" by (rule nearest_even_mono)
    then have "of_int (nearest_even (x / ?u)) * ?u \<le> of_int (nearest_even (y / ?u)) * ?u"
      using pow2_pos[of "ulp_exp y"] by (simp add: mult_right_mono)
    then show ?thesis using True by (simp add: round_pos_alt)
  next
    case False
    then have lt: "ulp_exp x < ulp_exp y" using ue by simp
    then have by1: "- 1022 < binade y" "binade x < binade y"
      by (auto simp: ulp_exp_def max_def split: if_splits)
    have uy: "ulp_exp y = binade y - 52" using by1 by (simp add: ulp_exp_def)
    let ?ux = "pow2 (ulp_exp x)" and ?uy = "pow2 (ulp_exp y)"
    let ?B = "pow2 (binade y)"
    have d: "0 \<le> binade y - ulp_exp x" using by1 by (simp add: ulp_exp_def)
    have Bx: "?B = of_int (2 ^ nat (binade y - ulp_exp x)) * ?ux"
    proof -
      have "?B = pow2 ((binade y - ulp_exp x) + ulp_exp x)" by simp
      also have "\<dots> = pow2 (binade y - ulp_exp x) * ?ux" by (rule pow2_add)
      finally show ?thesis using pow2_nonneg_int[OF d] by simp
    qed
    have By: "?B = of_int (2 ^ 52) * ?uy"
    proof -
      have "?B = pow2 (52 + ulp_exp y)" using uy by simp
      also have "\<dots> = pow2 52 * ?uy" by (rule pow2_add)
      finally show ?thesis by (simp add: pow2_def)
    qed
    have xB: "x \<le> ?B"
    proof -
      have "x < pow2 (binade x + 1)" using binade_bounds(2)[OF x] .
      also have "\<dots> \<le> ?B" using by1 by (intro pow2_mono) simp
      finally show ?thesis by simp
    qed
    have By_le: "?B \<le> y" using binade_bounds(1)[OF y] .
    have lo: "round_pos x \<le> ?B"
    proof -
      have "x / ?ux \<le> of_int (2 ^ nat (binade y - ulp_exp x))"
        using xB Bx pow2_pos[of "ulp_exp x"] by (simp add: pos_divide_le_eq)
      then have "nearest_even (x / ?ux) \<le> 2 ^ nat (binade y - ulp_exp x)"
        by (rule nearest_even_le_int)
      then have "(of_int (nearest_even (x / ?ux)) :: real) \<le> of_int (2 ^ nat (binade y - ulp_exp x))"
        by (simp only: of_int_le_iff)
      then have "of_int (nearest_even (x / ?ux)) * ?ux \<le> of_int (2 ^ nat (binade y - ulp_exp x)) * ?ux"
        by (rule mult_right_mono) (rule less_imp_le[OF pow2_pos])
      then show ?thesis using Bx by (simp add: round_pos_alt)
    qed
    have hi: "?B \<le> round_pos y"
    proof -
      have "of_int (2 ^ 52) \<le> y / ?uy"
        using By_le By pow2_pos[of "ulp_exp y"] by (simp add: pos_le_divide_eq)
      then have "2 ^ 52 \<le> nearest_even (y / ?uy)" by (rule nearest_even_ge_int)
      then have "(of_int (2 ^ 52) :: real) \<le> of_int (nearest_even (y / ?uy))"
        by (simp only: of_int_le_iff)
      then have "of_int (2 ^ 52) * ?uy \<le> of_int (nearest_even (y / ?uy)) * ?uy"
        by (rule mult_right_mono) (rule less_imp_le[OF pow2_pos])
      then show ?thesis using By by (simp add: round_pos_alt)
    qed
    show ?thesis using lo hi by linarith
  qed
qed

lemma round_double_mono:
  assumes "x \<le> y"
  shows "round_double x \<le> round_double y"
proof -
  consider "0 < x" | "x = 0" | "x < 0" "y < 0" | "x < 0" "y = 0" | "x < 0" "0 < y" by linarith
  then show ?thesis
  proof cases
    case 1
    then show ?thesis using assms round_pos_mono[OF 1 assms] by (simp add: round_double_def)
  next
    case 2
    then show ?thesis using assms round_pos_nonneg[of y] by (auto simp: round_double_def)
  next
    case 3
    have "round_pos (- y) \<le> round_pos (- x)" using 3 assms by (intro round_pos_mono) auto
    then show ?thesis using 3 by (simp add: round_double_def)
  next
    case 4
    then show ?thesis using round_pos_nonneg[of "- x"] by (simp add: round_double_def)
  next
    case 5
    then show ?thesis using round_pos_nonneg[of "- x"] round_pos_nonneg[of y]
      by (simp add: round_double_def)
  qed
qed

lemma round_pos_int:
  assumes n: "0 < n" "n \<le> 2 ^ 53"
  shows "round_pos (of_int n) = of_int n"
proof -
  let ?a = "of_int n :: real"
  have a: "0 < ?a" "1 \<le> ?a" using n by simp_all
  have e0: "0 \<le> binade ?a"
  proof -
    have "pow2 0 \<le> ?a" using a by (simp add: pow2_0)
    also have "\<dots> < pow2 (binade ?a + 1)" using binade_bounds(2)[OF a(1)] .
    finally have "0 < binade ?a + 1" by (rule pow2_less_imp)
    then show ?thesis by simp
  qed
  have e53: "binade ?a \<le> 53"
  proof -
    have "pow2 (binade ?a) \<le> ?a" using binade_bounds(1)[OF a(1)] .
    also have "\<dots> \<le> of_int (2 ^ 53)" using n by (simp only: of_int_le_iff)
    also have "\<dots> < pow2 54" by (simp add: pow2_def)
    finally have "binade ?a < 54" by (rule pow2_less_imp)
    then show ?thesis by simp
  qed
  have u: "ulp_exp ?a = binade ?a - 52" using e0 by (simp add: ulp_exp_def)
  show ?thesis
  proof (cases "binade ?a = 53")
    case True
    then have "pow2 53 \<le> ?a" using binade_bounds(1)[OF a(1)] by simp
    then have "of_int (2 ^ 53) \<le> ?a" by (simp add: pow2_def)
    then have "2 ^ 53 \<le> n" by (simp only: of_int_le_iff)
    then have n53: "n = 2 ^ 53" using n by simp
    have u1: "ulp_exp ?a = 1" using u True by simp
    have "?a / pow2 1 = of_int (2 ^ 52)" using n53 by (simp add: pow2_def)
    then have "nearest_even (?a / pow2 1) = 2 ^ 52" by (simp only: nearest_even_int)
    then show ?thesis using u1 n53 by (simp add: round_pos_alt pow2_def)
  next
    case False
    then have le: "binade ?a \<le> 52" using e53 by simp
    let ?k = "nat (52 - binade ?a)"
    have pk: "pow2 (ulp_exp ?a) = 1 / 2 ^ ?k"
    proof (cases "binade ?a = 52")
      case True then show ?thesis using u by (simp add: pow2_def)
    next
      case False
      then have "ulp_exp ?a < 0" using u le by simp
      moreover have "nat (- ulp_exp ?a) = ?k" using u by simp
      ultimately show ?thesis by (simp add: pow2_def)
    qed
    have "?a / pow2 (ulp_exp ?a) = of_int (n * 2 ^ ?k)" using pk by simp
    then have "nearest_even (?a / pow2 (ulp_exp ?a)) = n * 2 ^ ?k" by (simp only: nearest_even_int)
    then show ?thesis using pk by (simp add: round_pos_alt)
  qed
qed

lemma round_double_int:
  assumes "\<bar>n\<bar> \<le> 2 ^ 53"
  shows "round_double (of_int n) = of_int n"
proof -
  consider "n = 0" | "0 < n" | "n < 0" by linarith
  then show ?thesis
  proof cases
    case 1 then show ?thesis by (simp add: round_double_def)
  next
    case 2
    then show ?thesis using assms round_pos_int[of n] by (simp add: round_double_def)
  next
    case 3
    then have "round_pos (of_int (- n)) = of_int (- n)" using assms by (intro round_pos_int) auto
    then show ?thesis using 3 by (simp add: round_double_def)
  qed
qed

lemma double_inf_pos: "0 < double_inf"
  by (simp add: double_inf_def)

text \<open>The numeral of \<open>2^1024\<close>, for evaluation.\<close>

lemma double_inf_numeral [code]:
  "double_inf =
     179769313486231590772930519078902473361797697894230657273430081157732675805500963132708477322407536021120113879871393357658789768814416622492847430639474124377767893424865485276302219601246094119453082952085005768838150682342462881473913110540827237163350510684586298239947245938479716304835356329624224137216"
  by (simp add: double_inf_def)

lemma overflow_mono: "a \<le> b \<Longrightarrow> overflow a \<le> overflow b"
  using double_inf_pos by (auto simp: overflow_def)

lemma overflow_range: "- double_inf \<le> overflow z" "overflow z \<le> double_inf"
  using double_inf_pos by (auto simp: overflow_def)

lemma double_add_range: "- double_inf \<le> double_add x y" "double_add x y \<le> double_inf"
  using double_inf_pos overflow_range[of "round_double (x + y)"]
  by (auto simp: double_add_def)

lemma double_add_mono:
  assumes "a \<le> b"
  shows "double_add x a \<le> double_add x b"
proof (cases "double_inf \<le> x \<or> double_inf \<le> b")
  case True
  then have "double_add x b = double_inf" by (simp only: double_add_def if_True)
  then show ?thesis using double_add_range(2)[of x a] by (simp only:)
next
  case hi: False
  then have na: "\<not> (double_inf \<le> x \<or> double_inf \<le> a)" using assms by linarith
  show ?thesis
  proof (cases "x \<le> - double_inf \<or> a \<le> - double_inf")
    case True
    then have "double_add x a = - double_inf" using na by (simp only: double_add_def if_True if_False)
    then show ?thesis using double_add_range(1)[of x b] by (simp only:)
  next
    case lo: False
    then have nb: "\<not> (x \<le> - double_inf \<or> b \<le> - double_inf)" using assms by linarith
    have "double_add x a = overflow (round_double (x + a))"
      using na lo by (simp only: double_add_def if_False)
    moreover have "double_add x b = overflow (round_double (x + b))"
      using hi nb by (simp only: double_add_def if_False)
    moreover have "x + a \<le> x + b" using assms by simp
    ultimately show ?thesis using overflow_mono[OF round_double_mono] by (simp only:)
  qed
qed

lemma int_below_inf:
  assumes "\<bar>k\<bar> \<le> (2::int) ^ 53"
  shows "- double_inf < of_int k" "of_int k < double_inf"
proof -
  have "(2::int) ^ 53 < 2 ^ 1024" by (rule power_strict_increasing) simp_all
  then have "- (2 ^ 1024) < k" "k < 2 ^ 1024" using assms by linarith+
  then have "(of_int (- (2 ^ 1024)) :: real) < of_int k" "(of_int k :: real) < of_int (2 ^ 1024)"
    by (simp_all only: of_int_less_iff)
  moreover have "(of_int (2 ^ 1024) :: real) = double_inf"
    by (simp only: double_inf_def of_int_power of_int_numeral)
  moreover have "(of_int (- (2 ^ 1024)) :: real) = - double_inf"
    by (simp only: double_inf_def of_int_power of_int_numeral of_int_minus)
  ultimately show "- double_inf < of_int k" "of_int k < double_inf"
    by (simp_all only:)
qed

lemma double_add_int:
  assumes "0 \<le> m" "0 \<le> n" "m + n \<le> 2 ^ 53"
  shows "double_add (of_int m) (of_int n) = of_int m + of_int n"
proof -
  have b: "\<bar>m\<bar> \<le> 2 ^ 53" "\<bar>n\<bar> \<le> 2 ^ 53" "\<bar>m + n\<bar> \<le> 2 ^ 53" using assms by simp_all
  have r: "round_double (of_int m + of_int n) = of_int (m + n)"
    using round_double_int[OF b(3)] by simp
  have "overflow (of_int (m + n)) = of_int (m + n)"
    using int_below_inf[OF b(3)] by (simp add: overflow_def)
  then show ?thesis
    using r int_below_inf[OF b(1)] int_below_inf[OF b(2)] by (simp add: double_add_def)
qed

subsection \<open>Matrix accesses\<close>

text \<open>An access with both indices in range is the access to that element.\<close>

lemma Mat_addr_inside:
  assumes "inside m i j"
  shows "Mat_addr m i j = Some (i, j)"
proof -
  let ?c = "cols m" and ?r = "rows m"
  have ij: "0 \<le> i" "i < ?r" "0 \<le> j" "j < ?c" using assms by (auto simp: inside_def)
  have c: "0 < ?c" using ij by linarith
  have lo: "0 \<le> i * ?c + j" using ij c by simp
  have "(i + 1) * ?c \<le> ?r * ?c" using ij c by (intro mult_right_mono) auto
  then have hi: "i * ?c + j < ?r * ?c" using ij by (simp add: algebra_simps)
  have d: "(i * ?c + j) div ?c = i" using ij c by simp
  have md: "(i * ?c + j) mod ?c = j" using ij c by simp
  show ?thesis using lo hi d md by (simp add: Mat_addr_def Let_def)
qed

lemma Mat_at_inside: "inside m i j \<Longrightarrow> Mat_at m i j = cell m (i, j)"
  by (simp add: Mat_at_def Mat_addr_inside)

lemma Mat_put_inside:
  "inside m i j \<Longrightarrow> Mat_put m i j v = Some (m\<lparr>cell := (cell m)((i, j) \<mapsto> v)\<rparr>)"
  by (simp add: Mat_put_def Mat_addr_inside)

lemma inside_update [simp]: "inside (m\<lparr>cell := f\<rparr>) i j = inside m i j"
  by (simp add: inside_def)

lemma Mat_val_inside:
  "inside m i j \<Longrightarrow> Mat_val m i j = (case cell m (i, j) of Some v \<Rightarrow> v | None \<Rightarrow> 0)"
  by (simp add: Mat_val_def Mat_at_inside)

lemma Mat_val_cell: "inside m i j \<Longrightarrow> cell m (i, j) = Some v \<Longrightarrow> Mat_val m i j = v"
  by (simp add: Mat_val_inside)

lemma Mat_full_iff: "Mat_full m \<longleftrightarrow> (\<forall>i j. inside m i j \<longrightarrow> cell m (i, j) \<noteq> None)"
  by (auto simp: Mat_full_def inside_def list_all_iff)

lemma Mat_full_cell: "Mat_full m \<Longrightarrow> inside m i j \<Longrightarrow> \<exists>v. cell m (i, j) = Some v"
  by (simp add: Mat_full_iff)

lemma Mat_full_at: "Mat_full m \<Longrightarrow> inside m i j \<Longrightarrow> Mat_at m i j = Some (Mat_val m i j)"
  using Mat_full_cell[of m i j] by (auto simp: Mat_at_inside Mat_val_inside)

lemma Mat_at_no_columns: "cols m = 0 \<Longrightarrow> Mat_at m i j = None"
  by (auto simp: Mat_at_def Mat_addr_def Let_def)

section \<open>Loop invariants\<close>

subsection \<open>The dynamic program of \<^verbatim>\<open>findSeam\<close>\<close>

text \<open>
  Each loop is characterised by the state it returns: the inner loop by a closed form of
  the two tables, the outer loop by the invariant \<open>dp_inv\<close>, \<^verbatim>\<open>min_element\<close> by the leftmost
  minimum, and the backtracking loop by the recurrence its result satisfies. The
  optimality argument then runs on the recurrence \<open>dp_row\<close>: the cost of a cell is the
  energy of the path traced back from it, and a lower bound on the energy of every
  path that ends in it.
\<close>

lemma best_above_cong:
  assumes "0 \<le> j" "j < w" "\<And>k. 0 \<le> k \<Longrightarrow> k < w \<Longrightarrow> f k = g k"
  shows "best_above f w j = best_above g w j"
proof -
  have a: "f j = g j" using assms by simp
  have b: "0 < j \<Longrightarrow> f (j - 1) = g (j - 1)" using assms by simp
  have c: "j < w - 1 \<Longrightarrow> f (j + 1) = g (j + 1)" using assms by simp
  show ?thesis
    unfolding best_above_def Let_def using a b c by (auto split: prod.splits)
qed

lemma best_above_props:
  assumes "0 \<le> j" "j < w" "best_above prev w j = (m, off)"
  shows "off \<in> {-1, 0, 1}" "0 \<le> j + off" "j + off < w" "m = prev (j + off)"
    "\<And>d. d \<in> {-1, 0, 1} \<Longrightarrow> 0 \<le> j + d \<Longrightarrow> j + d < w \<Longrightarrow> m \<le> prev (j + d)"
  using assms by (auto simp: best_above_def Let_def split: if_splits)

lemma findSeam_cell_eq:
  assumes "inside cost i j" "inside backtrack i j" "1 \<le> i" "cols cost = w"
    and "\<And>k. 0 \<le> k \<Longrightarrow> k < w \<Longrightarrow> cell cost (i - 1, k) \<noteq> None"
    and "cell cost (i, j) \<noteq> None"
  shows "findSeam_cell w cost backtrack i j =
    Some (cost\<lparr>cell := (cell cost)((i, j) \<mapsto>
              double_add (Mat_val cost i j) (fst (best_above (Mat_val cost (i - 1)) w j)))\<rparr>,
          backtrack\<lparr>cell := (cell backtrack)((i, j) \<mapsto> snd (best_above (Mat_val cost (i - 1)) w j))\<rparr>)"
proof -
  have in1: "\<And>k. 0 \<le> k \<Longrightarrow> k < w \<Longrightarrow> inside cost (i - 1) k"
    using assms(1,3,4) by (auto simp: inside_def)
  have rd: "\<And>k. 0 \<le> k \<Longrightarrow> k < w \<Longrightarrow> Mat_at cost (i - 1) k = Some (Mat_val cost (i - 1) k)"
    using in1 assms(5) by (fastforce simp: Mat_at_inside Mat_val_inside)
  have j: "0 \<le> j" "j < w" using assms(1,4) by (auto simp: inside_def)
  have old: "Mat_at cost i j = Some (Mat_val cost i j)"
    using assms(1,6) by (auto simp: Mat_at_inside Mat_val_inside)
  show ?thesis
    using j assms(1,2) old
    by (simp add: findSeam_cell_def rd best_above_def Let_def Mat_put_inside)
qed

lemma Mat_val_upd_other:
  "inside m a b \<Longrightarrow> (a, b) \<noteq> (i, j) \<Longrightarrow>
   Mat_val (m\<lparr>cell := (cell m)((i, j) \<mapsto> v)\<rparr>) a b = Mat_val m a b"
  by (auto simp: Mat_val_inside)

lemma findSeam_cols_eq:
  "1 \<le> i \<Longrightarrow> i < rows cost \<Longrightarrow> rows backtrack = rows cost \<Longrightarrow> cols backtrack = w \<Longrightarrow>
   cols cost = w \<Longrightarrow> 0 \<le> j \<Longrightarrow>
   (\<And>k. 0 \<le> k \<Longrightarrow> k < w \<Longrightarrow> cell cost (i - 1, k) \<noteq> None) \<Longrightarrow>
   (\<And>k. j \<le> k \<Longrightarrow> k < w \<Longrightarrow> cell cost (i, k) \<noteq> None) \<Longrightarrow>
   findSeam_cols w cost backtrack i j =
     Some (cost\<lparr>cell := row_done cost w i j\<rparr>, backtrack\<lparr>cell := row_offs cost backtrack w i j\<rparr>)"
proof (induction w cost backtrack i j rule: findSeam_cols.induct)
  case (1 w cost backtrack i j)
  show ?case
  proof (cases "j < w")
    case False
    have "row_done cost w i j = cell cost" "row_offs cost backtrack w i j = cell backtrack"
      using False by (auto simp: row_done_def row_offs_def fun_eq_iff)
    then show ?thesis using False
      by (subst findSeam_cols.simps) simp
  next
    case True
    let ?c1 = "cost\<lparr>cell := (cell cost)((i, j) \<mapsto>
        double_add (Mat_val cost i j) (fst (best_above (Mat_val cost (i - 1)) w j)))\<rparr>"
    let ?b1 = "backtrack\<lparr>cell := (cell backtrack)((i, j) \<mapsto> snd (best_above (Mat_val cost (i - 1)) w j))\<rparr>"
    have ins: "inside cost i j" "inside backtrack i j"
      using True 1(2-7) by (auto simp: inside_def)
    have step: "findSeam_cell w cost backtrack i j = Some (?c1, ?b1)"
      using ins 1(2,6) 1(8) 1(9)[of j] True
      by (intro findSeam_cell_eq) auto
    have ih: "findSeam_cols w ?c1 ?b1 i (j + 1) =
       Some (?c1\<lparr>cell := row_done ?c1 w i (j + 1)\<rparr>, ?b1\<lparr>cell := row_offs ?c1 ?b1 w i (j + 1)\<rparr>)"
      using 1(2-7) 1(8) 1(9)
      by (intro 1(1)[OF True step refl]) auto
    have v1: "Mat_val ?c1 (i - 1) k = Mat_val cost (i - 1) k" if "0 \<le> k" "k < w" for k
      using that 1(2,3,6) by (intro Mat_val_upd_other) (auto simp: inside_def)
    have v2: "Mat_val ?c1 i k = Mat_val cost i k" if "j + 1 \<le> k" "k < w" for k
      using that 1(2,3,6,7) by (intro Mat_val_upd_other) (auto simp: inside_def)
    have ba: "best_above (Mat_val ?c1 (i - 1)) w k = best_above (Mat_val cost (i - 1)) w k"
      if "0 \<le> k" "k < w" for k
      using that v1 by (intro best_above_cong) auto
    have e1: "row_done ?c1 w i (j + 1) p = row_done cost w i j p" for p
    proof (cases "fst p = i \<and> j + 1 \<le> snd p \<and> snd p < w")
      case True
      then have "0 \<le> snd p" using 1(7) by simp
      then show ?thesis using True v2[of "snd p"] ba[of "snd p"] by (simp add: row_done_def)
    next
      case False
      show ?thesis
      proof (cases "p = (i, j)")
        case True
        then show ?thesis using \<open>j < w\<close> by (simp add: row_done_def)
      next
        case False
        then have "\<not> (fst p = i \<and> j \<le> snd p \<and> snd p < w)"
          using \<open>\<not> (fst p = i \<and> j + 1 \<le> snd p \<and> snd p < w)\<close> by (cases p) auto
        then show ?thesis
          using False \<open>\<not> (fst p = i \<and> j + 1 \<le> snd p \<and> snd p < w)\<close>
          by (cases p) (auto simp: row_done_def)
      qed
    qed
    have e2: "row_offs ?c1 ?b1 w i (j + 1) p = row_offs cost backtrack w i j p" for p
    proof (cases "fst p = i \<and> j + 1 \<le> snd p \<and> snd p < w")
      case True
      then have "0 \<le> snd p" using 1(7) by simp
      then show ?thesis using True ba[of "snd p"] by (simp add: row_offs_def)
    next
      case False
      show ?thesis
      proof (cases "p = (i, j)")
        case True
        then show ?thesis using \<open>j < w\<close> by (simp add: row_offs_def)
      next
        case False
        then have "\<not> (fst p = i \<and> j \<le> snd p \<and> snd p < w)"
          using \<open>\<not> (fst p = i \<and> j + 1 \<le> snd p \<and> snd p < w)\<close> by (cases p) auto
        then show ?thesis
          using False \<open>\<not> (fst p = i \<and> j + 1 \<le> snd p \<and> snd p < w)\<close>
          by (cases p) (auto simp: row_offs_def)
      qed
    qed
    have e1': "row_done ?c1 w i (j + 1) = row_done cost w i j" using e1 by (rule ext)
    have e2': "row_offs ?c1 ?b1 w i (j + 1) = row_offs cost backtrack w i j" using e2 by (rule ext)
    show ?thesis
      using True step ih e1' e2'
      by (subst findSeam_cols.simps) simp
  qed
qed

lemma dp_row_step:
  "1 \<le> i \<Longrightarrow> dp_row e (nat i) b =
     double_add (Mat_val e i b) (fst (best_above (dp_row e (nat (i - 1))) (cols e) b))"
proof -
  assume "1 \<le> i"
  then have "nat i = Suc (nat (i - 1))" by simp
  moreover have "int (Suc (nat (i - 1))) = i" using \<open>1 \<le> i\<close> by simp
  ultimately show ?thesis by simp
qed

lemma dp_inv_step:
  assumes full: "Mat_full e" and i: "1 \<le> i" "i < rows e" and inv: "dp_inv e cost i"
  shows "dp_inv e (cost\<lparr>cell := row_done cost (cols e) i 0\<rparr>) (i + 1)"
proof -
  have dims: "rows cost = rows e" "cols cost = cols e" using inv by (auto simp: dp_inv_def)
  have prev: "\<And>k. 0 \<le> k \<Longrightarrow> k < cols e \<Longrightarrow> Mat_val cost (i - 1) k = dp_row e (nat (i - 1)) k"
  proof -
    fix k assume k: "0 \<le> k" "k < cols e"
    then have ins: "inside e (i - 1) k" using i by (auto simp: inside_def)
    then have "cell cost (i - 1, k) = Some (dp_row e (nat (i - 1)) k)"
      using inv by (auto simp: dp_inv_def)
    moreover have "inside cost (i - 1) k" using ins dims by (simp add: inside_def)
    ultimately show "Mat_val cost (i - 1) k = dp_row e (nat (i - 1)) k"
      by (simp add: Mat_val_inside)
  qed
  have cur: "\<And>b. 0 \<le> b \<Longrightarrow> b < cols e \<Longrightarrow> Mat_val cost i b = Mat_val e i b"
  proof -
    fix b assume b: "0 \<le> b" "b < cols e"
    then have ins: "inside e i b" using i by (auto simp: inside_def)
    then have "cell cost (i, b) = cell e (i, b)" using inv by (auto simp: dp_inv_def)
    moreover have "inside cost i b" using ins dims by (simp add: inside_def)
    ultimately show "Mat_val cost i b = Mat_val e i b"
      using ins by (simp add: Mat_val_inside)
  qed
  have "cell (cost\<lparr>cell := row_done cost (cols e) i 0\<rparr>) (a, b) =
        (if a < i + 1 then Some (dp_row e (nat a) b) else cell e (a, b))"
    if ins: "inside e a b" for a b
  proof -
    have b: "0 \<le> b" "b < cols e" using ins by (auto simp: inside_def)
    consider "a < i" | "a = i" | "i < a" by linarith
    then show ?thesis
    proof cases
      case 1
      then show ?thesis using inv ins by (auto simp: row_done_def dp_inv_def)
    next
      case 2
      have "best_above (Mat_val cost (i - 1)) (cols e) b = best_above (dp_row e (nat (i - 1))) (cols e) b"
        using b prev by (intro best_above_cong) auto
      then show ?thesis
        using 2 b cur[OF b] dp_row_step[OF i(1), of e b] by (simp add: row_done_def)
    next
      case 3
      then show ?thesis using inv ins by (auto simp: row_done_def dp_inv_def)
    qed
  qed
  then show ?thesis using dims by (simp add: dp_inv_def)
qed

lemma findSeam_rows_ok:
  assumes full: "Mat_full e"
  shows "1 \<le> i \<Longrightarrow> i \<le> rows e \<Longrightarrow> rows backtrack = rows e \<Longrightarrow> cols backtrack = cols e \<Longrightarrow>
    dp_inv e cost i \<Longrightarrow>
    \<exists>cost' bt'. findSeam_rows (rows e) (cols e) cost backtrack i = Some (cost', bt') \<and>
       dp_inv e cost' (rows e) \<and> rows bt' = rows e \<and> cols bt' = cols e \<and>
       (\<forall>a b. inside e a b \<longrightarrow>
          cell bt' (a, b) = (if i \<le> a then Some (dp_off e a b) else cell backtrack (a, b)))"
proof (induction "nat (rows e - i)" arbitrary: i cost backtrack)
  case 0
  then have "i = rows e" by simp
  then show ?case using 0
    by (subst findSeam_rows.simps) (auto simp: inside_def)
next
  case (Suc n)
  then have lt: "i < rows e" by simp
  have dims: "rows cost = rows e" "cols cost = cols e" using Suc.prems by (auto simp: dp_inv_def)
  let ?w = "cols e"
  let ?c1 = "cost\<lparr>cell := row_done cost ?w i 0\<rparr>"
  let ?b1 = "backtrack\<lparr>cell := row_offs cost backtrack ?w i 0\<rparr>"
  have prevSome: "\<And>k. 0 \<le> k \<Longrightarrow> k < ?w \<Longrightarrow> cell cost (i - 1, k) \<noteq> None"
  proof -
    fix k assume "0 \<le> k" "k < ?w"
    then have "inside e (i - 1) k" using Suc.prems(1) lt by (auto simp: inside_def)
    then show "cell cost (i - 1, k) \<noteq> None" using Suc.prems(5) by (auto simp: dp_inv_def)
  qed
  have curSome: "\<And>k. 0 \<le> k \<Longrightarrow> k < ?w \<Longrightarrow> cell cost (i, k) \<noteq> None"
  proof -
    fix k assume "0 \<le> k" "k < ?w"
    then have ins: "inside e i k" using Suc.prems(1) lt by (auto simp: inside_def)
    then have "cell cost (i, k) = cell e (i, k)" using Suc.prems(5) by (auto simp: dp_inv_def)
    then show "cell cost (i, k) \<noteq> None" using full ins by (simp add: Mat_full_iff)
  qed
  have step: "findSeam_cols ?w cost backtrack i 0 = Some (?c1, ?b1)"
    using Suc.prems lt dims prevSome curSome
    by (intro findSeam_cols_eq) auto
  have inv1: "dp_inv e ?c1 (i + 1)"
    using full Suc.prems(1) lt Suc.prems(5) by (rule dp_inv_step)
  have "n = nat (rows e - (i + 1))" using Suc.hyps(2) by simp
  from Suc.hyps(1)[OF this, of ?b1 ?c1] Suc.prems lt inv1
  obtain cost' bt' where r: "findSeam_rows (rows e) ?w ?c1 ?b1 (i + 1) = Some (cost', bt')"
      "dp_inv e cost' (rows e)" "rows bt' = rows e" "cols bt' = cols e"
      "\<forall>a b. inside e a b \<longrightarrow>
          cell bt' (a, b) = (if i + 1 \<le> a then Some (dp_off e a b) else cell ?b1 (a, b))"
    by auto
  have prev: "\<And>k. 0 \<le> k \<Longrightarrow> k < cols e \<Longrightarrow> Mat_val cost (i - 1) k = dp_row e (nat (i - 1)) k"
  proof -
    fix k assume k: "0 \<le> k" "k < cols e"
    then have ins: "inside e (i - 1) k" using Suc.prems(1) lt by (auto simp: inside_def)
    then have "cell cost (i - 1, k) = Some (dp_row e (nat (i - 1)) k)"
      using Suc.prems(5) by (auto simp: dp_inv_def)
    moreover have "inside cost (i - 1) k" using ins dims by (simp add: inside_def)
    ultimately show "Mat_val cost (i - 1) k = dp_row e (nat (i - 1)) k"
      by (simp add: Mat_val_inside)
  qed
  have bt: "cell bt' (a, b) = (if i \<le> a then Some (dp_off e a b) else cell backtrack (a, b))"
    if ins: "inside e a b" for a b
  proof -
    have b: "0 \<le> b" "b < cols e" using ins by (auto simp: inside_def)
    have eq: "cell bt' (a, b) = (if i + 1 \<le> a then Some (dp_off e a b) else cell ?b1 (a, b))"
      using r(5) ins by blast
    have "best_above (Mat_val cost (i - 1)) (cols e) b = best_above (dp_row e (nat (i - 1))) (cols e) b"
      using b prev by (intro best_above_cong) auto
    note ba = this
    consider "a < i" | "a = i" | "i < a" by linarith
    then show ?thesis
    proof cases
      case 1 then show ?thesis using eq b by (simp add: row_offs_def)
    next
      case 2 then show ?thesis using eq b ba by (simp add: row_offs_def dp_off_def)
    next
      case 3 then show ?thesis using eq b by (simp add: row_offs_def)
    qed
  qed
  show ?case
    using lt step r(1-4) bt
    by (subst findSeam_rows.simps) simp
qed

lemma findSeam_tables_ok:
  assumes full: "Mat_full e" and h: "1 \<le> rows e" and w: "0 \<le> cols e"
  shows "\<exists>cost bt. findSeam_tables e = Some (cost, bt) \<and> dp_inv e cost (rows e) \<and>
     rows bt = rows e \<and> cols bt = cols e \<and>
     (\<forall>a b. inside e a b \<and> 1 \<le> a \<longrightarrow> cell bt (a, b) = Some (dp_off e a b))"
proof -
  let ?b0 = "\<lparr>rows = rows e, cols = cols e, cell = (\<lambda>p. None)\<rparr> :: int Mat"
  have inv: "dp_inv e e 1"
  proof -
    have "cell e (a, b) = (if a < 1 then Some (dp_row e (nat a) b) else cell e (a, b))"
      if "inside e a b" for a b
    proof (cases "a < 1")
      case True
      then have "a = 0" using that by (simp add: inside_def)
      then show ?thesis using Mat_full_at[OF full that] that by (simp add: Mat_at_inside)
    next
      case False then show ?thesis by simp
    qed
    then show ?thesis by (simp add: dp_inv_def)
  qed
  from findSeam_rows_ok[OF full _ h _ _ inv, of ?b0]
  obtain cost' bt' where r: "findSeam_rows (rows e) (cols e) e ?b0 1 = Some (cost', bt')"
    "dp_inv e cost' (rows e)" "rows bt' = rows e" "cols bt' = cols e"
    "\<forall>a b. inside e a b \<longrightarrow>
          cell bt' (a, b) = (if 1 \<le> a then Some (dp_off e a b) else cell ?b0 (a, b))"
    by auto
  have "findSeam_tables e = Some (cost', bt')"
    using h w r(1) by (simp add: findSeam_tables_def Mat_create_def Let_def)
  then show ?thesis using r(2-5) by auto
qed

lemma min_element_loop_ok:
  assumes rd: "\<And>b. 0 \<le> b \<Longrightarrow> b < n \<Longrightarrow> Mat_at m r b = Some (f b)"
  shows "0 \<le> s \<Longrightarrow> s < k \<Longrightarrow> k \<le> n \<Longrightarrow> (\<forall>b. 0 \<le> b \<and> b < k \<longrightarrow> f s \<le> f b) \<Longrightarrow>
     (\<forall>b. 0 \<le> b \<and> b < s \<longrightarrow> f s < f b) \<Longrightarrow>
     \<exists>r'. min_element_loop m r n s k = Some r' \<and> 0 \<le> r' \<and> r' < n \<and>
        (\<forall>b. 0 \<le> b \<and> b < n \<longrightarrow> f r' \<le> f b) \<and> (\<forall>b. 0 \<le> b \<and> b < r' \<longrightarrow> f r' < f b)"
proof (induction "nat (n - k)" arbitrary: s k)
  case 0
  then have "k = n" by simp
  then show ?case using 0 by (subst min_element_loop.simps) auto
next
  case (Suc d)
  then have lt: "k < n" by simp
  have rk: "Mat_at m r k = Some (f k)" using rd Suc.prems lt by simp
  have rs: "Mat_at m r s = Some (f s)" using rd Suc.prems lt by simp
  let ?s' = "if f k < f s then k else s"
  have d: "d = nat (n - (k + 1))" using Suc.hyps(2) by simp
  have a1: "0 \<le> ?s'" "?s' < k + 1" "k + 1 \<le> n" using Suc.prems lt by auto
  have a2: "\<forall>b. 0 \<le> b \<and> b < k + 1 \<longrightarrow> f ?s' \<le> f b"
  proof (intro allI impI)
    fix b assume b: "0 \<le> b \<and> b < k + 1"
    then consider "b < k" | "b = k" by linarith
    then show "f ?s' \<le> f b"
    proof cases
      case 1
      then have "f s \<le> f b" using Suc.prems(4) b by simp
      then show ?thesis by auto
    next
      case 2 then show ?thesis by auto
    qed
  qed
  have a3: "\<forall>b. 0 \<le> b \<and> b < ?s' \<longrightarrow> f ?s' < f b"
  proof (intro allI impI)
    fix b assume b: "0 \<le> b \<and> b < ?s'"
    show "f ?s' < f b"
    proof (cases "f k < f s")
      case True
      then have "b < k" using b by simp
      then have "f s \<le> f b" using Suc.prems(4) b by simp
      then show ?thesis using True by simp
    next
      case False
      then show ?thesis using b Suc.prems(5) by simp
    qed
  qed
  from Suc.hyps(1)[OF d a1 a2 a3] show ?case
    using lt rk rs by (subst min_element_loop.simps) simp
qed

lemma min_element_ok:
  assumes rd: "\<And>b. 0 \<le> b \<Longrightarrow> b < n \<Longrightarrow> Mat_at m r b = Some (f b)" and n: "1 \<le> n"
  shows "\<exists>r'. min_element m r n = Some r' \<and> 0 \<le> r' \<and> r' < n \<and>
        (\<forall>b. 0 \<le> b \<and> b < n \<longrightarrow> f r' \<le> f b) \<and> (\<forall>b. 0 \<le> b \<and> b < r' \<longrightarrow> f r' < f b)"
proof -
  have a: "\<forall>b. 0 \<le> b \<and> b < 1 \<longrightarrow> f 0 \<le> f (b::int)"
  proof (intro allI impI)
    fix b :: int assume "0 \<le> b \<and> b < 1"
    then have "b = 0" by simp
    then show "f 0 \<le> f b" by simp
  qed
  from min_element_loop_ok[of n m r f 0 1, OF rd _ _ n a] n
  show ?thesis by (simp add: min_element_def)
qed

lemma findSeam_back_ok:
  assumes bt: "\<And>a b. 1 \<le> a \<Longrightarrow> a < h \<Longrightarrow> 0 \<le> b \<Longrightarrow> b < w \<Longrightarrow>
      Mat_at bt a b = Some (off a b) \<and> 0 \<le> b + off a b \<and> b + off a b < w"
  shows "int (length seam) = h \<Longrightarrow> - 1 \<le> i \<Longrightarrow> i \<le> h - 2 \<Longrightarrow>
     0 \<le> seam ! nat (i + 1) \<Longrightarrow> seam ! nat (i + 1) < w \<Longrightarrow>
     \<exists>seam'. findSeam_back bt seam i = Some seam' \<and> length seam' = length seam \<and>
       (\<forall>k. i < k \<and> k < h \<longrightarrow> seam' ! nat k = seam ! nat k) \<and>
       (\<forall>k. 0 \<le> k \<and> k \<le> i \<longrightarrow>
          seam' ! nat k = seam' ! nat (k + 1) + off (k + 1) (seam' ! nat (k + 1)) \<and>
          0 \<le> seam' ! nat k \<and> seam' ! nat k < w)"
proof (induction "nat (i + 1)" arbitrary: seam i)
  case 0
  then have "i = - 1" by simp
  then show ?case by (subst findSeam_back.simps) simp
next
  case (Suc d)
  then have i0: "0 \<le> i" by simp
  let ?s = "seam ! nat (i + 1)"
  have g: "vec_get seam (i + 1) = Some ?s"
    using Suc.prems i0 by (simp add: vec_get_def)
  have b: "Mat_at bt (i + 1) ?s = Some (off (i + 1) ?s)" "0 \<le> ?s + off (i + 1) ?s"
     "?s + off (i + 1) ?s < w"
    using bt[of "i + 1" ?s] Suc.prems i0 by auto
  let ?seam1 = "seam[nat i := ?s + off (i + 1) ?s]"
  have st: "vec_set seam i (?s + off (i + 1) ?s) = Some ?seam1"
    using Suc.prems i0 by (simp add: vec_set_def)
  have d: "d = nat (i - 1 + 1)" using Suc.hyps(2) by simp
  have len: "int (length ?seam1) = h" using Suc.prems by simp
  have ilt: "nat i < length seam" using Suc.prems i0 by auto
  have at_i: "?seam1 ! nat (i - 1 + 1) = ?s + off (i + 1) ?s" using ilt by simp
  have p1: "- 1 \<le> i - 1" "i - 1 \<le> h - 2" using i0 Suc.prems by auto
  have p2: "0 \<le> ?seam1 ! nat (i - 1 + 1)" "?seam1 ! nat (i - 1 + 1) < w"
    using at_i b by auto
  from Suc.hyps(1)[OF d len p1 p2]
  obtain seam' where r: "findSeam_back bt ?seam1 (i - 1) = Some seam'"
     "length seam' = length ?seam1"
     "\<forall>k. i - 1 < k \<and> k < h \<longrightarrow> seam' ! nat k = ?seam1 ! nat k"
     "\<forall>k. 0 \<le> k \<and> k \<le> i - 1 \<longrightarrow>
          seam' ! nat k = seam' ! nat (k + 1) + off (k + 1) (seam' ! nat (k + 1)) \<and>
          0 \<le> seam' ! nat k \<and> seam' ! nat k < w"
    by auto
  have keep: "seam' ! nat k = seam ! nat k" if "i < k" "k < h" for k
  proof -
    have "nat k \<noteq> nat i" using that i0 by simp
    then show ?thesis using r(3) that by simp
  qed
  have ati: "seam' ! nat i = ?s + off (i + 1) ?s"
    using r(3) i0 Suc.prems ilt by simp
  have nxt: "seam' ! nat (i + 1) = ?s" using keep[of "i + 1"] Suc.prems by simp
  have rec: "seam' ! nat k = seam' ! nat (k + 1) + off (k + 1) (seam' ! nat (k + 1)) \<and>
          0 \<le> seam' ! nat k \<and> seam' ! nat k < w" if "0 \<le> k" "k \<le> i" for k
  proof (cases "k = i")
    case True
    then show ?thesis using ati nxt b by simp
  next
    case False
    then have "0 \<le> k \<and> k \<le> i - 1" using that by simp
    then show ?thesis using r(4) by blast
  qed
  have run: "findSeam_back bt seam i = Some seam'"
    using i0 g b(1) st r(1) by (subst findSeam_back.simps) simp
  have "length seam' = length seam" using r(2) by simp
  with run keep rec show ?case by blast
qed

lemma dp_off_props:
  assumes "1 \<le> a" "0 \<le> b" "b < cols e"
  shows "dp_off e a b \<in> {-1, 0, 1}" "0 \<le> b + dp_off e a b" "b + dp_off e a b < cols e"
    "fst (best_above (dp_row e (nat (a - 1))) (cols e) b) = dp_row e (nat (a - 1)) (b + dp_off e a b)"
    "\<And>d. d \<in> {-1, 0, 1} \<Longrightarrow> 0 \<le> b + d \<Longrightarrow> b + d < cols e \<Longrightarrow>
       dp_row e (nat (a - 1)) (b + dp_off e a b) \<le> dp_row e (nat (a - 1)) (b + d)"
proof -
  obtain m off where mo: "best_above (dp_row e (nat (a - 1))) (cols e) b = (m, off)"
    by (cases "best_above (dp_row e (nat (a - 1))) (cols e) b") auto
  have o: "dp_off e a b = off" using mo by (simp add: dp_off_def)
  note p = best_above_props[OF assms(2,3) mo]
  show "dp_off e a b \<in> {-1, 0, 1}" using p(1) o by simp
  show "0 \<le> b + dp_off e a b" using p(2) o by simp
  show "b + dp_off e a b < cols e" using p(3) o by simp
  show "fst (best_above (dp_row e (nat (a - 1))) (cols e) b) = dp_row e (nat (a - 1)) (b + dp_off e a b)"
    using p(4) o mo by simp
  show "\<And>d. d \<in> {-1, 0, 1} \<Longrightarrow> 0 \<le> b + d \<Longrightarrow> b + d < cols e \<Longrightarrow>
       dp_row e (nat (a - 1)) (b + dp_off e a b) \<le> dp_row e (nat (a - 1)) (b + d)"
    using p(4,5) o by simp
qed

lemma findSeam_char:
  assumes full: "Mat_full e" and h: "1 \<le> rows e" and w: "1 \<le> cols e"
  shows "\<exists>cost bt seam. findSeam_tables e = Some (cost, bt) \<and> findSeam e = Some seam \<and>
     dp_inv e cost (rows e) \<and> rows bt = rows e \<and> cols bt = cols e \<and>
     (\<forall>a b. inside e a b \<and> 1 \<le> a \<longrightarrow> cell bt (a, b) = Some (dp_off e a b)) \<and>
     min_element cost (rows e - 1) (cols e) = Some (seam ! nat (rows e - 1)) \<and>
     int (length seam) = rows e \<and>
     (\<forall>k. 0 \<le> k \<and> k < rows e \<longrightarrow> 0 \<le> seam ! nat k \<and> seam ! nat k < cols e) \<and>
     (\<forall>k. 0 \<le> k \<and> k \<le> rows e - 2 \<longrightarrow>
        seam ! nat k = seam ! nat (k + 1) + dp_off e (k + 1) (seam ! nat (k + 1))) \<and>
     (\<forall>b. 0 \<le> b \<and> b < cols e \<longrightarrow>
        dp_row e (nat (rows e - 1)) (seam ! nat (rows e - 1)) \<le> dp_row e (nat (rows e - 1)) b) \<and>
     (\<forall>b. 0 \<le> b \<and> b < seam ! nat (rows e - 1) \<longrightarrow>
        dp_row e (nat (rows e - 1)) (seam ! nat (rows e - 1)) < dp_row e (nat (rows e - 1)) b)"
proof -
  let ?h = "rows e" and ?w = "cols e"
  let ?f = "dp_row e (nat (?h - 1))"
  from findSeam_tables_ok[OF full h] w
  obtain cost bt where t: "findSeam_tables e = Some (cost, bt)" "dp_inv e cost ?h"
     "rows bt = ?h" "cols bt = ?w"
     "\<forall>a b. inside e a b \<and> 1 \<le> a \<longrightarrow> cell bt (a, b) = Some (dp_off e a b)"
    by auto
  have dims: "rows cost = ?h" "cols cost = ?w" using t(2) by (auto simp: dp_inv_def)
  have rd: "Mat_at cost (?h - 1) b = Some (?f b)" if "0 \<le> b" "b < ?w" for b
  proof -
    have ins: "inside e (?h - 1) b" using that h by (simp add: inside_def)
    then have "cell cost (?h - 1, b) = Some (?f b)" using t(2) by (auto simp: dp_inv_def)
    moreover have "inside cost (?h - 1) b" using ins dims by (simp add: inside_def)
    ultimately show ?thesis by (simp add: Mat_at_inside)
  qed
  from min_element_ok[of ?w cost "?h - 1" ?f, OF rd w]
  obtain k where k: "min_element cost (?h - 1) ?w = Some k" "0 \<le> k" "k < ?w"
      "\<forall>b. 0 \<le> b \<and> b < ?w \<longrightarrow> ?f k \<le> ?f b" "\<forall>b. 0 \<le> b \<and> b < k \<longrightarrow> ?f k < ?f b"
    by auto
  let ?seam0 = "(replicate (nat ?h) (0::int))[nat (?h - 1) := k]"
  have vs: "vec_set (replicate (nat ?h) 0) (?h - 1) k = Some ?seam0"
    using h by (simp add: vec_set_def)
  have len0: "int (length ?seam0) = ?h" using h by simp
  have last0: "?seam0 ! nat (?h - 1) = k" using h by simp
  have btp: "Mat_at bt a b = Some (dp_off e a b) \<and> 0 \<le> b + dp_off e a b \<and> b + dp_off e a b < ?w"
    if "1 \<le> a" "a < ?h" "0 \<le> b" "b < ?w" for a b
  proof -
    have ins: "inside e a b" using that by (simp add: inside_def)
    then have "cell bt (a, b) = Some (dp_off e a b)" using t(5) that by blast
    moreover have "inside bt a b" using ins t(3,4) by (simp add: inside_def)
    ultimately show ?thesis using dp_off_props(2,3)[OF that(1,3,4)] by (simp add: Mat_at_inside)
  qed
  have p: "- 1 \<le> ?h - 2" "?h - 2 \<le> ?h - 2" using h by auto
  have q: "0 \<le> ?seam0 ! nat (?h - 2 + 1)" "?seam0 ! nat (?h - 2 + 1) < ?w"
    using last0 k by (simp_all add: algebra_simps)
  from findSeam_back_ok[of ?h ?w bt "dp_off e" ?seam0 "?h - 2", OF btp len0 p q]
  obtain seam where s: "findSeam_back bt ?seam0 (?h - 2) = Some seam"
     "length seam = length ?seam0"
     "\<forall>k. ?h - 2 < k \<and> k < ?h \<longrightarrow> seam ! nat k = ?seam0 ! nat k"
     "\<forall>k. 0 \<le> k \<and> k \<le> ?h - 2 \<longrightarrow>
          seam ! nat k = seam ! nat (k + 1) + dp_off e (k + 1) (seam ! nat (k + 1)) \<and>
          0 \<le> seam ! nat k \<and> seam ! nat k < ?w"
    by auto
  have lastk: "seam ! nat (?h - 1) = k" using s(3) last0 by simp
  have fs: "findSeam e = Some seam"
    using t(1) k(1) vs s(1) by (simp add: findSeam_def Let_def)
  have len: "int (length seam) = ?h" using s(2) len0 by simp
  have rng: "0 \<le> seam ! nat a \<and> seam ! nat a < ?w" if "0 \<le> a" "a < ?h" for a
  proof (cases "a = ?h - 1")
    case True then show ?thesis using lastk k by simp
  next
    case False
    then have "0 \<le> a \<and> a \<le> ?h - 2" using that by simp
    then show ?thesis using s(4) by blast
  qed
  have rec: "\<forall>k. 0 \<le> k \<and> k \<le> ?h - 2 \<longrightarrow>
        seam ! nat k = seam ! nat (k + 1) + dp_off e (k + 1) (seam ! nat (k + 1))"
    using s(4) by blast
  show ?thesis
    using t(1,2,3,4,5) fs len rng rec k(1,4,5) lastk
    by (intro exI[of _ cost] exI[of _ bt] exI[of _ seam]) simp
qed

lemma connected_iff: "connected p \<longleftrightarrow> (\<forall>i. Suc i < length p \<longrightarrow> \<bar>p ! Suc i - p ! i\<bar> \<le> 1)"
proof (induction p rule: connected.induct)
  case (1 a b r)
  have "(\<forall>i. Suc i < length (a # b # r) \<longrightarrow> \<bar>(a # b # r) ! Suc i - (a # b # r) ! i\<bar> \<le> 1) \<longleftrightarrow>
        \<bar>b - a\<bar> \<le> 1 \<and> (\<forall>i. Suc i < length (b # r) \<longrightarrow> \<bar>(b # r) ! Suc i - (b # r) ! i\<bar> \<le> 1)"
    (is "?L \<longleftrightarrow> ?R")
  proof
    assume l: ?L
    have "\<bar>b - a\<bar> \<le> 1" using l[rule_format, of 0] by simp
    moreover have "\<bar>(b # r) ! Suc i - (b # r) ! i\<bar> \<le> 1" if "Suc i < length (b # r)" for i
      using l[rule_format, of "Suc i"] that by simp
    ultimately show ?R by blast
  next
    assume r: ?R
    show ?L
    proof (intro allI impI)
      fix i assume "Suc i < length (a # b # r)"
      then show "\<bar>(a # b # r) ! Suc i - (a # b # r) ! i\<bar> \<le> 1"
        using r by (cases i) auto
    qed
  qed
  then show ?case using 1 by simp
qed simp_all

lemma path_energy_sum: "path_energy e p = (\<Sum>k<length p. Mat_val e (int k) (p ! k))"
  by (simp add: path_energy_def interv_sum_list_conv_sum_set_nat atLeast0LessThan)

lemma seam_prefix:
  assumes rng: "\<And>k. k < length seam \<Longrightarrow> 0 \<le> seam ! k \<and> seam ! k < cols e"
    and rec: "\<And>k. Suc k < length seam \<Longrightarrow>
        seam ! k = seam ! Suc k + dp_off e (int (Suc k)) (seam ! Suc k)"
  shows "n < length seam \<Longrightarrow> rounded_sum e seam n = dp_row e n (seam ! n)"
proof (induction n)
  case 0
  then show ?case by simp
next
  case (Suc n)
  let ?j = "seam ! Suc n"
  have j: "0 \<le> ?j" "?j < cols e" using rng Suc.prems by auto
  have "fst (best_above (dp_row e (nat (int (Suc n) - 1))) (cols e) ?j) =
        dp_row e (nat (int (Suc n) - 1)) (?j + dp_off e (int (Suc n)) ?j)"
    using j by (intro dp_off_props(4)) auto
  then have "fst (best_above (dp_row e n) (cols e) ?j) = dp_row e n (seam ! n)"
    using rec[of n] Suc.prems by simp
  moreover have "rounded_sum e seam n = dp_row e n (seam ! n)"
    using Suc by simp
  ultimately show ?case by simp
qed

lemma path_lower_bound:
  assumes rng: "\<And>k. k < length p \<Longrightarrow> 0 \<le> p ! k \<and> p ! k < cols e"
    and con: "\<And>k. Suc k < length p \<Longrightarrow> \<bar>p ! Suc k - p ! k\<bar> \<le> 1"
  shows "n < length p \<Longrightarrow> dp_row e n (p ! n) \<le> rounded_sum e p n"
proof (induction n)
  case 0
  then show ?case by simp
next
  case (Suc n)
  let ?j = "p ! Suc n"
  let ?d = "p ! n - ?j"
  let ?v = "Mat_val e (int (Suc n)) ?j"
  have j: "0 \<le> ?j" "?j < cols e" using rng Suc.prems by auto
  have pn: "0 \<le> p ! n" "p ! n < cols e" using rng[of n] Suc.prems by auto
  have d: "?d \<in> {-1, 0, 1}" using con[of n] Suc.prems by auto
  have "dp_row e (nat (int (Suc n) - 1)) (?j + dp_off e (int (Suc n)) ?j)
        \<le> dp_row e (nat (int (Suc n) - 1)) (?j + ?d)"
    using j d pn by (intro dp_off_props(5)) auto
  moreover have "fst (best_above (dp_row e (nat (int (Suc n) - 1))) (cols e) ?j) =
        dp_row e (nat (int (Suc n) - 1)) (?j + dp_off e (int (Suc n)) ?j)"
    using j by (intro dp_off_props(4)) auto
  ultimately have "fst (best_above (dp_row e n) (cols e) ?j) \<le> dp_row e n (p ! n)"
    by simp
  then have "double_add ?v (fst (best_above (dp_row e n) (cols e) ?j)) \<le> double_add ?v (dp_row e n (p ! n))"
    by (rule double_add_mono)
  also have "\<dots> \<le> double_add ?v (rounded_sum e p n)"
    using Suc by (intro double_add_mono) simp
  finally show ?case by simp
qed

lemma vertical_path_nth:
  "vertical_path h w p \<longleftrightarrow> int (length p) = h \<and> (\<forall>k<length p. 0 \<le> p ! k \<and> p ! k < w) \<and>
     (\<forall>k. Suc k < length p \<longrightarrow> \<bar>p ! Suc k - p ! k\<bar> \<le> 1)"
  by (simp add: vertical_path_def connected_iff list_all_length)

lemma finite_vertical_paths: "finite {p. vertical_path h w p}"
proof -
  have "{p. vertical_path h w p} \<subseteq> {p. set p \<subseteq> {0..<w} \<and> length p = nat h}"
    by (auto simp: vertical_path_def list_all_iff)
  moreover have "finite {p. set p \<subseteq> {0..<w} \<and> length p = nat h}"
    by (rule finite_lists_length_eq) simp
  ultimately show ?thesis by (rule finite_subset)
qed

lemma findSeam_summary:
  assumes full: "Mat_full e" and h: "1 \<le> rows e" and w: "1 \<le> cols e"
  shows "\<exists>cost bt seam. findSeam_tables e = Some (cost, bt) \<and> findSeam e = Some seam \<and>
     vertical_path (rows e) (cols e) seam \<and>
     (\<forall>b. 0 \<le> b \<and> b < cols e \<longrightarrow> Mat_val cost (rows e - 1) b = dp_row e (nat (rows e - 1)) b) \<and>
     path_cost e seam = dp_row e (nat (rows e - 1)) (seam ! nat (rows e - 1)) \<and>
     (\<forall>b. 0 \<le> b \<and> b < cols e \<longrightarrow>
        dp_row e (nat (rows e - 1)) (seam ! nat (rows e - 1)) \<le> dp_row e (nat (rows e - 1)) b)"
proof -
  let ?h = "rows e" and ?w = "cols e"
  from findSeam_char[OF assms]
  obtain cost bt seam where c: "findSeam_tables e = Some (cost, bt)" "findSeam e = Some seam"
     "dp_inv e cost ?h" "int (length seam) = ?h"
     "\<forall>k. 0 \<le> k \<and> k < ?h \<longrightarrow> 0 \<le> seam ! nat k \<and> seam ! nat k < ?w"
     "\<forall>k. 0 \<le> k \<and> k \<le> ?h - 2 \<longrightarrow>
        seam ! nat k = seam ! nat (k + 1) + dp_off e (k + 1) (seam ! nat (k + 1))"
     "\<forall>b. 0 \<le> b \<and> b < ?w \<longrightarrow>
        dp_row e (nat (?h - 1)) (seam ! nat (?h - 1)) \<le> dp_row e (nat (?h - 1)) b"
    by blast
  have rng: "0 \<le> seam ! k \<and> seam ! k < ?w" if "k < length seam" for k
    using c(5)[rule_format, of "int k"] that c(4) by simp
  have rec: "seam ! k = seam ! Suc k + dp_off e (int (Suc k)) (seam ! Suc k)"
    if "Suc k < length seam" for k
  proof -
    have "0 \<le> int k \<and> int k \<le> ?h - 2" using that c(4) by auto
    from c(6)[rule_format, OF this] show ?thesis
      by (simp add: nat_add_distrib add.commute)
  qed
  have con: "\<bar>seam ! Suc k - seam ! k\<bar> \<le> 1" if "Suc k < length seam" for k
  proof -
    have "dp_off e (int (Suc k)) (seam ! Suc k) \<in> {-1, 0, 1}"
      using rng[OF that] by (intro dp_off_props(1)) auto
    then show ?thesis using rec[OF that] by auto
  qed
  have vp: "vertical_path ?h ?w seam"
    using c(4) rng con by (simp add: vertical_path_nth)
  have n: "nat (?h - 1) < length seam" "length seam = Suc (nat (?h - 1))"
    using c(4) h by auto
  have pe: "path_cost e seam = dp_row e (nat (?h - 1)) (seam ! nat (?h - 1))"
    using seam_prefix[of seam e "nat (?h - 1)", OF rng rec n(1)] n(2)
    by (simp add: path_cost_def)
  have dims: "rows cost = ?h" "cols cost = ?w" using c(3) by (auto simp: dp_inv_def)
  have cv: "Mat_val cost (?h - 1) b = dp_row e (nat (?h - 1)) b" if "0 \<le> b" "b < ?w" for b
  proof -
    have ins: "inside e (?h - 1) b" using that h by (simp add: inside_def)
    then have "cell cost (?h - 1, b) = Some (dp_row e (nat (?h - 1)) b)"
      using c(3) by (auto simp: dp_inv_def)
    moreover have "inside cost (?h - 1) b" using ins dims by (simp add: inside_def)
    ultimately show ?thesis by (simp add: Mat_val_inside)
  qed
  show ?thesis using c(1,2,7) vp pe cv by blast
qed

lemma path_cost_lower:
  assumes vp: "vertical_path (rows e) (cols e) p" and h: "1 \<le> rows e"
  shows "dp_row e (nat (rows e - 1)) (p ! nat (rows e - 1)) \<le> path_cost e p"
proof -
  have len: "int (length p) = rows e" using vp by (simp add: vertical_path_nth)
  have rng: "\<And>k. k < length p \<Longrightarrow> 0 \<le> p ! k \<and> p ! k < cols e"
    using vp by (simp add: vertical_path_nth)
  have con: "\<And>k. Suc k < length p \<Longrightarrow> \<bar>p ! Suc k - p ! k\<bar> \<le> 1"
    using vp by (simp add: vertical_path_nth)
  have n: "nat (rows e - 1) < length p" "length p = Suc (nat (rows e - 1))"
    using len h by auto
  show ?thesis
    using path_lower_bound[of p e "nat (rows e - 1)", OF rng con n(1)] n(2)
    by (simp add: path_cost_def)
qed

lemma integer_bounded_iff:
  "integer_bounded e b \<longleftrightarrow>
     (\<forall>i j. inside e i j \<longrightarrow>
        (\<exists>v. cell e (i, j) = Some v \<and> v = of_int \<lfloor>v\<rfloor> \<and> 0 \<le> v \<and> v \<le> of_int b))"
proof -
  let ?Q = "\<lambda>i j. \<exists>v. cell e (i, j) = Some v \<and> v = of_int \<lfloor>v\<rfloor> \<and> 0 \<le> v \<and> v \<le> of_int b"
  have c: "(case x of None \<Rightarrow> False | Some v \<Rightarrow> P v) \<longleftrightarrow> (\<exists>v. x = Some v \<and> P v)"
    for x :: "real option" and P
    by (cases x) auto
  have d: "integer_bounded e b \<longleftrightarrow>
      (\<forall>i\<in>set [0..rows e - 1]. \<forall>j\<in>set [0..cols e - 1]. ?Q i j)"
    by (simp add: integer_bounded_def list_all_iff c)
  show ?thesis
  proof
    assume a: "integer_bounded e b"
    show "\<forall>i j. inside e i j \<longrightarrow> ?Q i j"
    proof (intro allI impI)
      fix i j assume "inside e i j"
      then have "i \<in> set [0..rows e - 1]" "j \<in> set [0..cols e - 1]"
        by (auto simp: inside_def)
      with a d show "?Q i j" by blast
    qed
  next
    assume a: "\<forall>i j. inside e i j \<longrightarrow> ?Q i j"
    have "?Q i j" if "i \<in> set [0..rows e - 1]" "j \<in> set [0..cols e - 1]" for i j
    proof -
      have "inside e i j" using that by (auto simp: inside_def)
      with a show ?thesis by blast
    qed
    then show "integer_bounded e b" unfolding d by blast
  qed
qed

lemma integer_bounded_full: "integer_bounded e b \<Longrightarrow> Mat_full e"
  unfolding integer_bounded_iff Mat_full_iff by fastforce

lemma integer_bounded_val:
  assumes "integer_bounded e b" "inside e i j"
  shows "\<exists>a. Mat_val e i j = of_int a \<and> 0 \<le> a \<and> a \<le> b"
proof -
  from assms obtain v where v: "cell e (i, j) = Some v" "v = of_int \<lfloor>v\<rfloor>" "0 \<le> v" "v \<le> of_int b"
    unfolding integer_bounded_iff by blast
  have "Mat_val e i j = of_int \<lfloor>v\<rfloor>" using v(1,2) assms(2) by (simp add: Mat_val_inside)
  moreover have "0 \<le> \<lfloor>v\<rfloor>" using v(3) by simp
  moreover have "\<lfloor>v\<rfloor> \<le> b" using v(4) by (simp add: floor_le_iff)
  ultimately show ?thesis by blast
qed

lemma rounded_sum_exact:
  assumes ib: "integer_bounded e b" and bnd: "rows e * b \<le> 2 ^ 53"
    and len: "int (length p) = rows e"
    and rng: "\<And>k. k < length p \<Longrightarrow> 0 \<le> p ! k \<and> p ! k < cols e"
  shows "n < length p \<Longrightarrow>
     rounded_sum e p n = (\<Sum>k<Suc n. Mat_val e (int k) (p ! k)) \<and>
     (\<exists>s. rounded_sum e p n = of_int s \<and> 0 \<le> s \<and> s \<le> (int n + 1) * b)"
proof (induction n)
  case 0
  have "0 < rows e" using 0 len by linarith
  then have "inside e 0 (p ! 0)" using rng[of 0] 0 by (simp add: inside_def)
  from integer_bounded_val[OF ib this] show ?case by auto
next
  case (Suc n)
  have ins: "inside e (int (Suc n)) (p ! Suc n)"
    using rng[of "Suc n"] Suc.prems len by (simp add: inside_def)
  from integer_bounded_val[OF ib ins]
  obtain a where a: "Mat_val e (int (Suc n)) (p ! Suc n) = of_int a" "0 \<le> a" "a \<le> b" by blast
  from Suc obtain s where s: "rounded_sum e p n = (\<Sum>k<Suc n. Mat_val e (int k) (p ! k))"
      "rounded_sum e p n = of_int s" "0 \<le> s" "s \<le> (int n + 1) * b"
    by auto
  have b0: "0 \<le> b" using a by linarith
  have "a + s \<le> (int n + 2) * b" using a s by (simp add: algebra_simps)
  also have "\<dots> \<le> rows e * b" using Suc.prems len b0 by (intro mult_right_mono) auto
  finally have le: "a + s \<le> 2 ^ 53" using bnd by linarith
  have ex: "double_add (of_int a) (of_int s) = of_int a + of_int s"
    using a(2) s(3) le by (rule double_add_int)
  have r: "rounded_sum e p (Suc n) = of_int (a + s)" using a(1) s(2) ex by simp
  have "rounded_sum e p (Suc n) = (\<Sum>k<Suc (Suc n). Mat_val e (int k) (p ! k))"
    using r a(1) s(1,2) by simp
  moreover have "0 \<le> a + s" "a + s \<le> (int (Suc n) + 1) * b"
    using a s by (simp_all add: algebra_simps)
  ultimately show ?case using r by blast
qed

lemma path_cost_exact:
  assumes ib: "integer_bounded e b" and bnd: "rows e * b \<le> 2 ^ 53" and h: "1 \<le> rows e"
    and vp: "vertical_path (rows e) (cols e) p"
  shows "path_cost e p = path_energy e p"
proof -
  have len: "int (length p) = rows e" using vp by (simp add: vertical_path_nth)
  have rng: "\<And>k. k < length p \<Longrightarrow> 0 \<le> p ! k \<and> p ! k < cols e"
    using vp by (simp add: vertical_path_nth)
  have n: "length p - 1 < length p" "Suc (length p - 1) = length p" using len h by auto
  have "path_cost e p = (\<Sum>k<Suc (length p - 1). Mat_val e (int k) (p ! k))"
    unfolding path_cost_def using rounded_sum_exact[OF ib bnd len rng n(1)] by blast
  also have "\<dots> = (\<Sum>k<length p. Mat_val e (int k) (p ! k))"
    by (simp only: n(2))
  also have "\<dots> = path_energy e p" by (simp only: path_energy_sum)
  finally show ?thesis .
qed

lemma best_above_snd_iff:
  assumes "0 \<le> j" "j < w"
  shows "snd (best_above f w j) = 0 \<longleftrightarrow>
           (0 < j \<longrightarrow> f j \<le> f (j - 1)) \<and> (j < w - 1 \<longrightarrow> f j \<le> f (j + 1))"
    and "snd (best_above f w j) = - 1 \<longleftrightarrow>
           0 < j \<and> f (j - 1) < f j \<and> (j < w - 1 \<longrightarrow> f (j - 1) \<le> f (j + 1))"
    and "snd (best_above f w j) = 1 \<longleftrightarrow>
           j < w - 1 \<and> f (j + 1) < f j \<and> (0 < j \<longrightarrow> f (j + 1) < f (j - 1))"
  using assms by (auto simp: best_above_def Let_def)

lemma dp_inv_val:
  assumes "dp_inv e cost h" "0 \<le> i" "i < h" "i < rows e" "0 \<le> j" "j < cols e"
  shows "Mat_val cost i j = dp_row e (nat i) j"
proof -
  have ins: "inside e i j" using assms by (simp add: inside_def)
  then have "cell cost (i, j) = Some (dp_row e (nat i) j)"
    using assms(1,3) by (auto simp: dp_inv_def)
  moreover have "inside cost i j" using ins assms(1) by (simp add: inside_def dp_inv_def)
  ultimately show ?thesis by (simp add: Mat_val_inside)
qed

lemma follow_unique:
  assumes len: "length s = length seam"
    and lst: "s ! (length seam - 1) = seam ! (length seam - 1)"
    and st: "\<forall>i. 0 \<le> i \<and> i \<le> int (length seam) - 2 \<longrightarrow>
        Mat_at bt (i + 1) (s ! nat (i + 1)) = Some (s ! nat i - s ! nat (i + 1))"
    and sm: "\<forall>i. 0 \<le> i \<and> i \<le> int (length seam) - 2 \<longrightarrow>
        Mat_at bt (i + 1) (seam ! nat (i + 1)) = Some (seam ! nat i - seam ! nat (i + 1))"
  shows "s = seam"
proof -
  have eq: "n < length seam \<Longrightarrow> s ! (length seam - 1 - n) = seam ! (length seam - 1 - n)" for n
  proof (induction n)
    case 0
    then show ?case using lst by simp
  next
    case (Suc n)
    let ?i = "int (length seam - 1 - Suc n)"
    have i: "0 \<le> ?i \<and> ?i \<le> int (length seam) - 2" using Suc.prems by auto
    have n1: "nat (?i + 1) = length seam - 1 - n" using Suc.prems by auto
    have n0: "nat ?i = length seam - 1 - Suc n" by simp
    have prev: "s ! (length seam - 1 - n) = seam ! (length seam - 1 - n)"
      using Suc by simp
    have a: "Mat_at bt (?i + 1) (s ! (length seam - 1 - n)) =
        Some (s ! (length seam - 1 - Suc n) - s ! (length seam - 1 - n))"
      using st[rule_format, OF i] unfolding n1 n0 .
    have b: "Mat_at bt (?i + 1) (seam ! (length seam - 1 - n)) =
        Some (seam ! (length seam - 1 - Suc n) - seam ! (length seam - 1 - n))"
      using sm[rule_format, OF i] unfolding n1 n0 .
    show ?case using a b prev by simp
  qed
  show ?thesis
  proof (rule nth_equalityI)
    show "length s = length seam" by (rule len)
    fix k assume "k < length s"
    then have k: "k < length seam" using len by simp
    then have "length seam - 1 - (length seam - 1 - k) = k" by simp
    moreover have "length seam - 1 - k < length seam" using k by simp
    ultimately show "s ! k = seam ! k" using eq[of "length seam - 1 - k"] by simp
  qed
qed

lemma findSeam_rows_no_columns:
  "findSeam_rows h 0 cost backtrack i = Some (cost, backtrack)"
proof (induction "nat (h - i)" arbitrary: i)
  case 0
  then show ?case by (subst findSeam_rows.simps) simp
next
  case (Suc d)
  then have lt: "i < h" by simp
  have c: "findSeam_cols 0 cost backtrack i 0 = Some (cost, backtrack)"
    by (subst findSeam_cols.simps) simp
  have "d = nat (h - (i + 1))" using Suc.hyps(2) by simp
  from Suc.hyps(1)[OF this] show ?case
    using lt c by (subst findSeam_rows.simps) simp
qed

lemma findSeam_one_row_no_columns:
  assumes "rows e = 1" "cols e = 0"
  shows "findSeam e = Some [0]"
proof -
  let ?b = "\<lparr>rows = 1, cols = 0, cell = (\<lambda>p. None)\<rparr> :: int Mat"
  have t: "findSeam_tables e = Some (e, ?b)"
    using assms by (simp add: findSeam_tables_def Let_def Mat_create_def findSeam_rows_no_columns)
  have b: "findSeam_back ?b [0] (- 1) = Some [0]"
    by (subst findSeam_back.simps) simp
  show ?thesis
    using assms t b by (simp add: findSeam_def Let_def min_element_def vec_set_def)
qed

lemma findSeam_no_rows:
  assumes "rows e \<le> 0"
  shows "findSeam e = None"
proof (cases "findSeam_tables e")
  case None
  then show ?thesis by (simp add: findSeam_def Let_def)
next
  case (Some t)
  obtain cost bt where t: "t = (cost, bt)" by (cases t) auto
  have "vec_set (replicate (nat (rows e)) 0) (rows e - 1) k = None" for k
    using assms by (simp add: vec_set_def)
  then show ?thesis
    using Some t by (cases "min_element cost (rows e - 1) (cols e)") (simp_all add: findSeam_def Let_def)
qed

lemma findSeam_rows_no_columns_undefined:
  assumes "2 \<le> rows e" "cols e = 0"
  shows "findSeam e = None"
proof -
  let ?h = "rows e"
  let ?b = "\<lparr>rows = ?h, cols = 0, cell = (\<lambda>p. None)\<rparr> :: int Mat"
  have t: "findSeam_tables e = Some (e, ?b)"
    using assms by (simp add: findSeam_tables_def Let_def Mat_create_def findSeam_rows_no_columns)
  let ?s0 = "(replicate (nat ?h) (0::int))[nat (?h - 1) := 0]"
  have v: "vec_set (replicate (nat ?h) 0) (?h - 1) 0 = Some ?s0"
    using assms by (simp add: vec_set_def)
  have "?s0 ! nat (?h - 1) = 0" using assms by simp
  then have g: "vec_get ?s0 (?h - 2 + 1) = Some 0"
    using assms by (simp add: vec_get_def algebra_simps)
  have b: "findSeam_back ?b ?s0 (?h - 2) = None"
    using assms g by (subst findSeam_back.simps) (simp add: Mat_at_no_columns)
  show ?thesis
    using assms t v b by (simp add: findSeam_def Let_def min_element_def)
qed

subsection \<open>The loops of \<^verbatim>\<open>removeSeam\<close>\<close>

text \<open>
  Closed forms of the output after each loop when the seam entry of the row is a column
  of the image: every access then has both indices in range.
\<close>

lemma removeSeam_left_eq:
  assumes g: "vec_get seam i = Some s" and i: "0 \<le> i" "i < rows image'"
    and s: "s \<le> cols image' - 1" and full: "Mat_full image'"
  shows "rows out = rows image' \<Longrightarrow> cols out = cols image' - 1 \<Longrightarrow> 0 \<le> j \<Longrightarrow>
    removeSeam_left image' seam out i j = Some (out\<lparr>cell := left_done image' out i j s\<rparr>)"
proof (induction "nat (s - j)" arbitrary: out j)
  case 0
  then have "\<not> j < s" by simp
  moreover have "left_done image' out i j s = cell out"
    using \<open>\<not> j < s\<close> by (auto simp: left_done_def fun_eq_iff)
  ultimately show ?case using g by (subst removeSeam_left.simps) simp
next
  case (Suc d)
  then have lt: "j < s" by simp
  have ins: "inside image' i j" using i lt s Suc.prems by (simp add: inside_def)
  obtain p where p: "cell image' (i, j) = Some p"
    using Mat_full_cell[OF full ins] by blast
  have rd: "Mat_at image' i j = Some p" using ins p by (simp add: Mat_at_inside)
  let ?o1 = "out\<lparr>cell := (cell out)((i, j) \<mapsto> p)\<rparr>"
  have wr: "Mat_put out i j p = Some ?o1"
    using i lt s Suc.prems by (intro Mat_put_inside) (simp add: inside_def)
  have d: "d = nat (s - (j + 1))" using Suc.hyps(2) by simp
  have ih: "removeSeam_left image' seam ?o1 i (j + 1) =
      Some (?o1\<lparr>cell := left_done image' ?o1 i (j + 1) s\<rparr>)"
    using Suc.prems by (intro Suc.hyps(1)[OF d]) auto
  have e: "left_done image' ?o1 i (j + 1) s = left_done image' out i j s"
    using lt p by (auto simp: left_done_def fun_eq_iff)
  show ?case
    using g lt rd wr ih e by (subst removeSeam_left.simps) simp
qed

lemma removeSeam_right_eq:
  assumes i: "0 \<le> i" "i < rows image'" and full: "Mat_full image'"
  shows "rows out = rows image' \<Longrightarrow> cols out = cols image' - 1 \<Longrightarrow> 1 \<le> j \<Longrightarrow>
    removeSeam_right image' (cols image') out i j =
      Some (out\<lparr>cell := right_done image' out (cols image') i j\<rparr>)"
proof (induction "nat (cols image' - j)" arbitrary: out j)
  case 0
  then have "\<not> j < cols image'" by simp
  moreover have "right_done image' out (cols image') i j = cell out"
    using \<open>\<not> j < cols image'\<close> by (auto simp: right_done_def fun_eq_iff)
  ultimately show ?case by (subst removeSeam_right.simps) simp
next
  case (Suc d)
  then have lt: "j < cols image'" by simp
  have ins: "inside image' i j" using i lt Suc.prems by (simp add: inside_def)
  obtain p where p: "cell image' (i, j) = Some p"
    using Mat_full_cell[OF full ins] by blast
  have rd: "Mat_at image' i j = Some p" using ins p by (simp add: Mat_at_inside)
  let ?o1 = "out\<lparr>cell := (cell out)((i, j - 1) \<mapsto> p)\<rparr>"
  have wr: "Mat_put out i (j - 1) p = Some ?o1"
    using i lt Suc.prems by (intro Mat_put_inside) (simp add: inside_def)
  have d: "d = nat (cols image' - (j + 1))" using Suc.hyps(2) by simp
  have ih: "removeSeam_right image' (cols image') ?o1 i (j + 1) =
      Some (?o1\<lparr>cell := right_done image' ?o1 (cols image') i (j + 1)\<rparr>)"
    using Suc.prems by (intro Suc.hyps(1)[OF d]) auto
  have e: "right_done image' ?o1 (cols image') i (j + 1) = right_done image' out (cols image') i j"
    using lt p by (auto simp: right_done_def fun_eq_iff)
  show ?case
    using lt rd wr ih e by (subst removeSeam_right.simps) simp
qed

lemma removeSeam_row_ok:
  assumes ok: "seam_ok (cols image') seam i" and i: "i < rows image'" and full: "Mat_full image'"
    and o: "rows out = rows image'" "cols out = cols image' - 1"
  shows "removeSeam_left image' seam out i 0 =
           Some (out\<lparr>cell := left_done image' out i 0 (seam ! nat i)\<rparr>)"
    and "vec_get seam i = Some (seam ! nat i)"
    and "removeSeam_right image' (cols image') (out\<lparr>cell := left_done image' out i 0 (seam ! nat i)\<rparr>) i
            (seam ! nat i + 1) =
           Some (out\<lparr>cell := row_moved image' out (cols image') i (seam ! nat i)\<rparr>)"
proof -
  let ?s = "seam ! nat i"
  have i0: "0 \<le> i" and s: "0 \<le> ?s" "?s \<le> cols image' - 1" using ok by (auto simp: seam_ok_def)
  show g: "vec_get seam i = Some ?s" using ok by (simp add: vec_get_def seam_ok_def)
  show "removeSeam_left image' seam out i 0 = Some (out\<lparr>cell := left_done image' out i 0 ?s\<rparr>)"
    using g i0 i s(2) full o by (intro removeSeam_left_eq) auto
  let ?o1 = "out\<lparr>cell := left_done image' out i 0 ?s\<rparr>"
  have "removeSeam_right image' (cols image') ?o1 i (?s + 1) =
          Some (?o1\<lparr>cell := right_done image' ?o1 (cols image') i (?s + 1)\<rparr>)"
    using i0 i full o s by (intro removeSeam_right_eq) auto
  moreover have "right_done image' ?o1 (cols image') i (?s + 1) = row_moved image' out (cols image') i ?s"
    using s by (auto simp: right_done_def left_done_def row_moved_def fun_eq_iff)
  ultimately show "removeSeam_right image' (cols image') ?o1 i (?s + 1) =
           Some (out\<lparr>cell := row_moved image' out (cols image') i ?s\<rparr>)"
    by simp
qed

lemma removeSeam_rows_ok:
  assumes full: "Mat_full image'"
    and ok: "\<And>k. 0 \<le> k \<Longrightarrow> k < rows image' \<Longrightarrow> seam_ok (cols image') seam k"
  shows "0 \<le> i \<Longrightarrow> i \<le> rows image' \<Longrightarrow> rows out = rows image' \<Longrightarrow> cols out = cols image' - 1 \<Longrightarrow>
    removeSeam_rows image' seam (rows image') (cols image') out i =
      Some (out\<lparr>cell := rows_done image' seam (rows image') (cols image') out i\<rparr>)"
proof (induction "nat (rows image' - i)" arbitrary: out i)
  case 0
  then have "\<not> i < rows image'" by simp
  moreover have "rows_done image' seam (rows image') (cols image') out i = cell out"
    using \<open>\<not> i < rows image'\<close> by (auto simp: rows_done_def fun_eq_iff)
  ultimately show ?case by (subst removeSeam_rows.simps) simp
next
  case (Suc d)
  then have lt: "i < rows image'" by simp
  let ?s = "seam ! nat i"
  let ?o1 = "out\<lparr>cell := left_done image' out i 0 ?s\<rparr>"
  let ?o2 = "out\<lparr>cell := row_moved image' out (cols image') i ?s\<rparr>"
  note r = removeSeam_row_ok[OF ok[OF Suc.prems(1) lt] lt full Suc.prems(3,4)]
  have d: "d = nat (rows image' - (i + 1))" using Suc.hyps(2) by simp
  have ih: "removeSeam_rows image' seam (rows image') (cols image') ?o2 (i + 1) =
      Some (?o2\<lparr>cell := rows_done image' seam (rows image') (cols image') ?o2 (i + 1)\<rparr>)"
    using Suc.prems lt by (intro Suc.hyps(1)[OF d]) auto
  have e: "rows_done image' seam (rows image') (cols image') ?o2 (i + 1) =
           rows_done image' seam (rows image') (cols image') out i"
    using lt by (auto simp: rows_done_def row_moved_def fun_eq_iff)
  show ?case
    using lt r ih e by (subst removeSeam_rows.simps) simp
qed

lemma removeSeam_ok:
  assumes full: "Mat_full image'" and h: "0 \<le> rows image'" and w: "1 \<le> cols image'"
    and ok: "\<And>k. 0 \<le> k \<Longrightarrow> k < rows image' \<Longrightarrow> seam_ok (cols image') seam k"
  shows "removeSeam image' seam =
    Some \<lparr>rows = rows image', cols = cols image' - 1,
          cell = rows_done image' seam (rows image') (cols image')
                   \<lparr>rows = rows image', cols = cols image' - 1, cell = (\<lambda>p. None)\<rparr> 0\<rparr>"
proof -
  let ?o = "\<lparr>rows = rows image', cols = cols image' - 1, cell = (\<lambda>p. None)\<rparr> :: Vec3b Mat"
  have c: "Mat_create (rows image') (cols image' - 1) = Some ?o"
    using h w by (simp add: Mat_create_def)
  have "removeSeam_rows image' seam (rows image') (cols image') ?o 0 =
      Some (?o\<lparr>cell := rows_done image' seam (rows image') (cols image') ?o 0\<rparr>)"
    using h by (intro removeSeam_rows_ok[OF full ok]) auto
  then show ?thesis using c by (simp add: removeSeam_def Let_def)
qed

subsection \<open>The carving loop\<close>

text \<open>
  One iteration keeps the image fully written, keeps its height and takes one column
  away; the guard of \<^verbatim>\<open>seamCarving\<close> leaves at least two columns before every iteration.
\<close>

lemma ref_cv_contract: "opencv_contract ref_cv"
proof -
  have a: "\<exists>g. cvtColor ref_cv img = Some g \<and> rows g = rows img \<and> cols g = cols img \<and> Mat_full g"
    if "1 \<le> rows img \<and> 1 \<le> cols img \<and> Mat_full img" for img
    using that by (auto simp: ref_cv_def ref_cvtColor_def Mat_full_iff inside_def)
  have b: "\<exists>d. Sobel ref_cv g dx dy 3 = Some d \<and> rows d = rows g \<and> cols d = cols g \<and> Mat_full d"
    if "1 \<le> rows g \<and> 1 \<le> cols g \<and> Mat_full g \<and> ((dx, dy) = (1, 0) \<or> (dx, dy) = (0, 1))" for g dx dy
    using that by (auto simp: ref_cv_def ref_Sobel_def Mat_full_iff inside_def)
  show ?thesis unfolding opencv_contract_def using a b by blast
qed

lemma Mat_abs_full: "Mat_full m \<Longrightarrow> Mat_full (Mat_abs m)"
  by (auto simp: Mat_full_iff Mat_abs_def inside_def)

lemma Mat_add_ok:
  assumes "Mat_full a" "Mat_full b" "rows a = rows b" "cols a = cols b"
  shows "\<exists>c. Mat_add a b = Some c \<and> rows c = rows a \<and> cols c = cols a \<and> Mat_full c"
proof -
  let ?c = "\<lparr>rows = rows a, cols = cols a,
              cell = (\<lambda>p. case cell a p of
                             None \<Rightarrow> None
                           | Some x \<Rightarrow> (case cell b p of None \<Rightarrow> None | Some y \<Rightarrow> Some (double_add x y)))\<rparr>"
  have "Mat_add a b = Some ?c" using assms by (simp add: Mat_add_def)
  moreover have "cell ?c (i, j) \<noteq> None" if "inside ?c i j" for i j
  proof -
    have "inside a i j" "inside b i j" using that assms(3,4) by (auto simp: inside_def)
    then obtain x y where "cell a (i, j) = Some x" "cell b (i, j) = Some y"
      using Mat_full_cell[OF assms(1)] Mat_full_cell[OF assms(2)] by blast
    then show ?thesis by simp
  qed
  then have "Mat_full ?c" unfolding Mat_full_iff by blast
  ultimately show ?thesis by simp
qed

lemma computeEnergy_ok:
  assumes cv: "opencv_contract cv" and img: "1 \<le> rows image'" "1 \<le> cols image'" "Mat_full image'"
  shows "\<exists>e. computeEnergy cv image' = Some e \<and> rows e = rows image' \<and> cols e = cols image' \<and> Mat_full e"
proof -
  from cv img obtain g where g: "cvtColor cv image' = Some g" "rows g = rows image'"
      "cols g = cols image'" "Mat_full g"
    unfolding opencv_contract_def by blast
  have g1: "1 \<le> rows g \<and> 1 \<le> cols g \<and> Mat_full g" using g img by simp
  from cv g1 obtain gx where gx: "Sobel cv g 1 0 3 = Some gx" "rows gx = rows g"
      "cols gx = cols g" "Mat_full gx"
    unfolding opencv_contract_def by blast
  from cv g1 obtain gy where gy: "Sobel cv g 0 1 3 = Some gy" "rows gy = rows g"
      "cols gy = cols g" "Mat_full gy"
    unfolding opencv_contract_def by blast
  have "\<exists>c. Mat_add (Mat_abs gx) (Mat_abs gy) = Some c \<and> rows c = rows (Mat_abs gx) \<and>
       cols c = cols (Mat_abs gx) \<and> Mat_full c"
    using gx gy by (intro Mat_add_ok Mat_abs_full) (simp_all add: Mat_abs_def)
  then obtain c where c: "Mat_add (Mat_abs gx) (Mat_abs gy) = Some c" "rows c = rows gx"
      "cols c = cols gx" "Mat_full c"
    by (auto simp: Mat_abs_def)
  have "computeEnergy cv image' = Some c"
    using g(1) gx(1) gy(1) c(1) by (simp add: computeEnergy_def Let_def)
  then show ?thesis using c g gx by simp
qed

lemma removeSeam_result:
  assumes full: "Mat_full image'" and h: "0 \<le> rows image'" and w: "1 \<le> cols image'"
    and ok: "\<And>k. 0 \<le> k \<Longrightarrow> k < rows image' \<Longrightarrow> seam_ok (cols image') seam k"
  shows "\<exists>out. removeSeam image' seam = Some out \<and> rows out = rows image' \<and>
     cols out = cols image' - 1 \<and> Mat_full out"
proof -
  let ?h = "rows image'" and ?w = "cols image'"
  let ?o = "\<lparr>rows = ?h, cols = ?w - 1, cell = (\<lambda>p. None)\<rparr> :: Vec3b Mat"
  let ?r = "\<lparr>rows = ?h, cols = ?w - 1, cell = rows_done image' seam ?h ?w ?o 0\<rparr>"
  have r: "removeSeam image' seam = Some ?r"
    using full h w ok by (rule removeSeam_ok)
  have "cell ?r (i, j) \<noteq> None" if "inside ?r i j" for i j
  proof -
    have ij: "0 \<le> i" "i < ?h" "0 \<le> j" "j < ?w - 1" using that by (auto simp: inside_def)
    then have i1: "inside image' i j" "inside image' i (j + 1)" by (auto simp: inside_def)
    have "cell ?r (i, j) = (if j < seam ! nat i then cell image' (i, j) else cell image' (i, j + 1))"
      using ij by (simp add: rows_done_def)
    then show ?thesis
      using Mat_full_cell[OF full i1(1)] Mat_full_cell[OF full i1(2)] by auto
  qed
  then have "Mat_full ?r" unfolding Mat_full_iff by blast
  then show ?thesis using r by (intro exI[of _ ?r]) simp
qed

lemma findSeam_seam_ok:
  assumes "Mat_full e" "1 \<le> rows e" "1 \<le> cols e"
  shows "\<exists>seam. findSeam e = Some seam \<and> (\<forall>k. 0 \<le> k \<and> k < rows e \<longrightarrow> seam_ok (cols e) seam k)"
proof -
  from findSeam_summary[OF assms]
  obtain seam where s: "findSeam e = Some seam" "vertical_path (rows e) (cols e) seam"
    by blast
  have len: "int (length seam) = rows e" using s(2) by (simp add: vertical_path_nth)
  have "seam_ok (cols e) seam k" if "0 \<le> k \<and> k < rows e" for k
  proof -
    have "nat k < length seam" using that len by auto
    then have "0 \<le> seam ! nat k \<and> seam ! nat k < cols e"
      using s(2) by (simp add: vertical_path_nth)
    then show ?thesis using that len by (simp add: seam_ok_def)
  qed
  then show ?thesis using s(1) by blast
qed

lemma seamCarving_loop_ok:
  assumes cv: "opencv_contract cv"
  shows "Mat_full image' \<Longrightarrow> 1 \<le> rows image' \<Longrightarrow> 0 \<le> i \<Longrightarrow> i \<le> n \<Longrightarrow> n - i < cols image' \<Longrightarrow>
    \<exists>out. seamCarving_loop cv image' n i = Some out \<and> rows out = rows image' \<and>
      cols out = cols image' - (n - i) \<and> Mat_full out"
proof (induction "nat (n - i)" arbitrary: image' i)
  case 0
  then have "i = n" by simp
  then show ?case using 0 by (subst seamCarving_loop.simps) simp
next
  case (Suc d)
  then have lt: "i < n" by simp
  then have w: "2 \<le> cols image'" using Suc.prems by simp
  from computeEnergy_ok[OF cv Suc.prems(2) _ Suc.prems(1)] w
  obtain e where e: "computeEnergy cv image' = Some e" "rows e = rows image'"
     "cols e = cols image'" "Mat_full e"
    by auto
  from findSeam_seam_ok[OF e(4)] e(2,3) Suc.prems(2) w
  obtain seam where s: "findSeam e = Some seam"
     "\<forall>k. 0 \<le> k \<and> k < rows image' \<longrightarrow> seam_ok (cols image') seam k"
    by auto
  from removeSeam_result[OF Suc.prems(1), of seam] Suc.prems(2) w s(2)
  obtain out1 where o: "removeSeam image' seam = Some out1" "rows out1 = rows image'"
     "cols out1 = cols image' - 1" "Mat_full out1"
    by auto
  have dd: "d = nat (n - (i + 1))" using Suc.hyps(2) by simp
  have "\<exists>out. seamCarving_loop cv out1 n (i + 1) = Some out \<and> rows out = rows out1 \<and>
      cols out = cols out1 - (n - (i + 1)) \<and> Mat_full out"
    using o Suc.prems lt by (intro Suc.hyps(1)[OF dd]) auto
  then obtain out where r: "seamCarving_loop cv out1 n (i + 1) = Some out" "rows out = rows out1"
      "cols out = cols out1 - (n - (i + 1))" "Mat_full out"
    by blast
  have run: "seamCarving_loop cv image' n i = Some out"
    using lt e(1) s(1) o(1) r(1) by (subst seamCarving_loop.simps) simp
  have "cols out = cols image' - (n - i)" using r(3) o(3) by simp
  then show ?case using run r(2,4) o(2) by simp
qed

section \<open>The seam solver\<close>

text \<open>
  Claim C4 (seam validity). For every energy field with at least one row and one column,
  \<^verbatim>\<open>findSeam\<close> returns a seam with one entry per row, every entry a column of the field
  (\<open>0 \<le> seam[i] < W\<close> for \<open>0 \<le> i \<le> H - 1\<close>), and entries of adjacent rows at most one
  apart (\<open>|seam[i+1] - seam[i]| \<le> 1\<close> for \<open>0 \<le> i \<le> H - 2\<close>). In particular no access of
  the function leaves a buffer.
\<close>

theorem findSeam_seam_valid:
  assumes "Mat_full energy" and "1 \<le> rows energy" and "1 \<le> cols energy"
  shows "\<exists>seam. findSeam energy = Some seam \<and> int (length seam) = rows energy \<and>
     (\<forall>i. 0 \<le> i \<and> i \<le> rows energy - 1 \<longrightarrow> 0 \<le> seam ! nat i \<and> seam ! nat i < cols energy) \<and>
     (\<forall>i. 0 \<le> i \<and> i \<le> rows energy - 2 \<longrightarrow> \<bar>seam ! nat (i + 1) - seam ! nat i\<bar> \<le> 1)"
proof -
  from findSeam_summary[OF assms]
  obtain seam where s: "findSeam energy = Some seam"
    "vertical_path (rows energy) (cols energy) seam"
    by blast
  have len: "int (length seam) = rows energy" using s(2) by (simp add: vertical_path_nth)
  have a: "0 \<le> seam ! nat i \<and> seam ! nat i < cols energy" if "0 \<le> i \<and> i \<le> rows energy - 1" for i
  proof -
    have "nat i < length seam" using that len by auto
    then show ?thesis using s(2) by (simp add: vertical_path_nth)
  qed
  have b: "\<bar>seam ! nat (i + 1) - seam ! nat i\<bar> \<le> 1" if "0 \<le> i \<and> i \<le> rows energy - 2" for i
  proof -
    have "Suc (nat i) < length seam" "nat (i + 1) = Suc (nat i)" using that len by auto
    then show ?thesis using s(2) by (simp add: vertical_path_nth)
  qed
  show ?thesis using s(1) len a b by blast
qed

theorem findSeam_seam_valid_witness:
  "Mat_full field_ties \<and> 1 \<le> rows field_ties \<and> 1 \<le> cols field_ties \<and>
   findSeam field_ties = Some [1, 0] \<and>
   (\<exists>seam. findSeam field_ties = Some seam \<and> int (length seam) = rows field_ties \<and>
     (\<forall>i. 0 \<le> i \<and> i \<le> rows field_ties - 1 \<longrightarrow>
        0 \<le> seam ! nat i \<and> seam ! nat i < cols field_ties) \<and>
     (\<forall>i. 0 \<le> i \<and> i \<le> rows field_ties - 2 \<longrightarrow> \<bar>seam ! nat (i + 1) - seam ! nat i\<bar> \<le> 1))"
proof -
  have h: "Mat_full field_ties" "1 \<le> rows field_ties" "1 \<le> cols field_ties"
    by code_simp+
  have v: "findSeam field_ties = Some [1, 0]" by code_simp
  show ?thesis by (intro conjI h v findSeam_seam_valid[OF h])
qed

text \<open>
  Claim C1 (optimality), as the code has it. For every energy field with at least one
  row and one column, the seam returned by \<^verbatim>\<open>findSeam\<close> is a vertical path (one column per
  row, adjacent rows at most one column apart). Its energy summed in double precision
  from row 0 downwards (\<open>path_cost\<close>) equals the minimum of the last row of the cost
  table that \<^verbatim>\<open>findSeam\<close> has filled, and that minimum is the minimum, over all vertical
  paths from row 0 to row \<open>H - 1\<close>, of the energy summed in the same way. Where no sum
  is rounded, the same holds of the exact sums (\<open>path_energy\<close>): this is so for every
  field of integer energies between 0 and \<open>b\<close> with \<open>H * b \<le> 2^53\<close>.
\<close>

theorem findSeam_minimum_energy_path:
  assumes "Mat_full energy" and "1 \<le> rows energy" and "1 \<le> cols energy"
  shows "\<exists>cost backtrack seam.
     findSeam_tables energy = Some (cost, backtrack) \<and> findSeam energy = Some seam \<and>
     vertical_path (rows energy) (cols energy) seam \<and>
     path_cost energy seam = Min (Mat_val cost (rows energy - 1) ` {0..<cols energy}) \<and>
     Min (Mat_val cost (rows energy - 1) ` {0..<cols energy}) =
       Min (path_cost energy ` {p. vertical_path (rows energy) (cols energy) p}) \<and>
     (\<forall>b. integer_bounded energy b \<and> rows energy * b \<le> 2 ^ 53 \<longrightarrow>
        path_energy energy seam = Min (Mat_val cost (rows energy - 1) ` {0..<cols energy}) \<and>
        path_energy energy seam =
          Min (path_energy energy ` {p. vertical_path (rows energy) (cols energy) p}))"
proof -
  let ?h = "rows energy" and ?w = "cols energy"
  let ?f = "dp_row energy (nat (?h - 1))"
  let ?P = "{p. vertical_path ?h ?w p}"
  from findSeam_summary[OF assms]
  obtain cost bt seam where c: "findSeam_tables energy = Some (cost, bt)"
     "findSeam energy = Some seam" "vertical_path ?h ?w seam"
     "\<forall>b. 0 \<le> b \<and> b < ?w \<longrightarrow> Mat_val cost (?h - 1) b = ?f b"
     "path_cost energy seam = ?f (seam ! nat (?h - 1))"
     "\<forall>b. 0 \<le> b \<and> b < ?w \<longrightarrow> ?f (seam ! nat (?h - 1)) \<le> ?f b"
    by blast
  let ?k = "seam ! nat (?h - 1)"
  let ?M = "Min (Mat_val cost (?h - 1) ` {0..<?w})"
  have len: "int (length seam) = ?h" using c(3) by (simp add: vertical_path_nth)
  have k: "0 \<le> ?k" "?k < ?w"
    using c(3) len assms(2) by (auto simp: vertical_path_nth)
  have m1: "?M = path_cost energy seam"
  proof (rule Min_eqI)
    show "finite (Mat_val cost (?h - 1) ` {0..<?w})" by simp
    show "path_cost energy seam \<le> y" if "y \<in> Mat_val cost (?h - 1) ` {0..<?w}" for y
      using that c(4,5,6) by auto
    show "path_cost energy seam \<in> Mat_val cost (?h - 1) ` {0..<?w}"
      using c(4)[rule_format, of ?k] c(5) k by (auto simp: image_iff intro!: bexI[of _ ?k])
  qed
  have m2: "Min (path_cost energy ` ?P) = path_cost energy seam"
  proof (rule Min_eqI)
    show "finite (path_cost energy ` ?P)"
      using finite_vertical_paths by simp
    show "path_cost energy seam \<le> y" if "y \<in> path_cost energy ` ?P" for y
    proof -
      from that obtain p where p: "vertical_path ?h ?w p" "y = path_cost energy p" by auto
      have lp: "int (length p) = ?h" using p(1) by (simp add: vertical_path_nth)
      have "0 \<le> p ! nat (?h - 1) \<and> p ! nat (?h - 1) < ?w"
        using p(1) lp assms(2) by (auto simp: vertical_path_nth)
      then have "?f ?k \<le> ?f (p ! nat (?h - 1))" using c(6) by blast
      also have "\<dots> \<le> path_cost energy p" using path_cost_lower[OF p(1) assms(2)] .
      finally show ?thesis using c(5) p(2) by simp
    qed
    show "path_cost energy seam \<in> path_cost energy ` ?P"
      using c(3) by blast
  qed
  have ex: "path_energy energy seam = ?M \<and> path_energy energy seam = Min (path_energy energy ` ?P)"
    if b: "integer_bounded energy b \<and> rows energy * b \<le> 2 ^ 53" for b
  proof -
    have eq: "path_cost energy p = path_energy energy p" if "vertical_path ?h ?w p" for p
      using b assms(2) that by (intro path_cost_exact[of energy b]) auto
    have "path_energy energy ` ?P = path_cost energy ` ?P"
      using eq by (intro image_cong) auto
    then show ?thesis using m1 m2 eq[OF c(3)] by simp
  qed
  show ?thesis using c(1,2,3) m1 m2 ex by auto
qed

theorem findSeam_minimum_energy_path_witness:
  "Mat_full field3 \<and> 1 \<le> rows field3 \<and> 1 \<le> cols field3 \<and>
   integer_bounded field3 3 \<and> rows field3 * 3 \<le> 2 ^ 53 \<and>
   findSeam field3 = Some [0, 1, 0] \<and>
   Min (path_cost field3 ` {p. vertical_path 3 3 p}) = 3 \<and>
   Min (path_energy field3 ` {p. vertical_path 3 3 p}) = 3"
proof -
  have h: "Mat_full field3" "1 \<le> rows field3" "1 \<le> cols field3"
    by code_simp+
  have d: "rows field3 = 3" "cols field3 = 3" by code_simp+
  have ib: "integer_bounded field3 3" by code_simp
  have bd: "rows field3 * 3 \<le> 2 ^ 53" using d by simp
  have v: "findSeam field3 = Some [0, 1, 0]" by code_simp
  have e: "path_energy field3 [0, 1, 0] = 3" "path_cost field3 [0, 1, 0] = 3" by code_simp+
  from findSeam_minimum_energy_path[OF h]
  obtain cost seam where r: "findSeam field3 = Some seam"
     "path_cost field3 seam = Min (Mat_val cost (rows field3 - 1) ` {0..<cols field3})"
     "Min (Mat_val cost (rows field3 - 1) ` {0..<cols field3}) =
        Min (path_cost field3 ` {p. vertical_path (rows field3) (cols field3) p})"
     "\<forall>b. integer_bounded field3 b \<and> rows field3 * b \<le> 2 ^ 53 \<longrightarrow>
        path_energy field3 seam = Min (Mat_val cost (rows field3 - 1) ` {0..<cols field3}) \<and>
        path_energy field3 seam =
          Min (path_energy field3 ` {p. vertical_path (rows field3) (cols field3) p})"
    by blast
  have s: "seam = [0, 1, 0]" using r(1) v by simp
  have a: "Min (path_cost field3 ` {p. vertical_path 3 3 p}) = 3"
    using r(2,3) s e d by simp
  have "path_energy field3 seam =
          Min (path_energy field3 ` {p. vertical_path (rows field3) (cols field3) p})"
    using r(4) ib bd by blast
  then have b: "Min (path_energy field3 ` {p. vertical_path 3 3 p}) = 3"
    using s e d by simp
  show ?thesis by (intro conjI h ib bd v a b)
qed

text \<open>
  The claim as the specification words it, with the sum of the energies taken exactly,
  fails where a sum is rounded. On the field \<open>[[1, 9, 0], [2^53, 2^54, 2^53]]\<close> the cost
  \<open>2^53 + 1\<close> of the cell \<open>(1, 0)\<close> is rounded to \<open>2^53\<close>, the last cost row has its minimum
  in column 0 as well as in column 2, and \<^verbatim>\<open>findSeam\<close> returns the seam \<open>[0, 0]\<close> of energy
  \<open>2^53 + 1\<close>, while the path \<open>[2, 2]\<close> has energy \<open>2^53\<close>.
\<close>

theorem findSeam_rounded_cost_not_minimal:
  "findSeam field_big = Some [0, 0] \<and>
   map_option (to_rows \<circ> fst) (findSeam_tables field_big) =
     Some [[Some 1, Some 9, Some 0],
           [Some 9007199254740992, Some 18014398509481984, Some 9007199254740992]] \<and>
   path_energy field_big [0, 0] = 9007199254740993 \<and>
   vertical_path (rows field_big) (cols field_big) [2, 2] \<and>
   path_energy field_big [2, 2] = 9007199254740992 \<and>
   path_energy field_big [2, 2] < path_energy field_big [0, 0]"
  by code_simp

text \<open>
  Claim C9 (the 3 by 3 scenario). On the energy field \<open>[[1,3,1],[3,1,3],[1,3,1]]\<close> the
  cost table filled by \<^verbatim>\<open>findSeam\<close> is \<open>[[1,3,1],[4,2,4],[3,5,3]]\<close>, \<^verbatim>\<open>min_element\<close> on its
  last row gives column 0, the returned seam is \<open>[0,1,0]\<close>, and the energy of that seam
  is 3.
\<close>

theorem findSeam_field3:
  "map_option (to_rows \<circ> fst) (findSeam_tables field3) =
     Some [[Some 1, Some 3, Some 1], [Some 4, Some 2, Some 4], [Some 3, Some 5, Some 3]] \<and>
   Option.bind (findSeam_tables field3)
     (\<lambda>(cost, backtrack). min_element cost (rows field3 - 1) (cols field3)) = Some 0 \<and>
   findSeam field3 = Some [0, 1, 0] \<and>
   path_energy field3 [0, 1, 0] = 3"
  by code_simp

text \<open>
  Claim C5 (tie-breaks). In the tables filled by \<^verbatim>\<open>findSeam\<close>, the offset stored at
  \<open>(i, j)\<close> is 0 exactly when the cost straight above is no larger than the cost of each
  valid diagonal neighbour, \<open>-1\<close> exactly when the left neighbour is strictly cheaper than
  the cell above and no more expensive than the right neighbour, and \<open>+1\<close> exactly when
  the right neighbour is strictly cheaper than both: among equal minima straight wins
  over left and left over right. The last entry of the seam is the result of
  \<^verbatim>\<open>min_element\<close> on the last cost row, the smallest column that attains the minimum of
  that row, and every earlier entry follows the stored offset. These rules leave no
  choice: a seam that starts at the \<^verbatim>\<open>min_element\<close> column and follows the stored offsets
  is the seam returned. (\<^verbatim>\<open>findSeam\<close> reads nothing but its argument, and its embedding
  is a function of the energy field.)
\<close>

theorem findSeam_tie_break:
  assumes "Mat_full energy" and "1 \<le> rows energy" and "1 \<le> cols energy"
  shows "\<exists>cost backtrack seam.
     findSeam_tables energy = Some (cost, backtrack) \<and> findSeam energy = Some seam \<and>
     (\<forall>i j. 1 \<le> i \<and> i < rows energy \<and> 0 \<le> j \<and> j < cols energy \<longrightarrow>
        (\<exists>off. Mat_at backtrack i j = Some off \<and>
           (off = 0 \<longleftrightarrow>
              (0 < j \<longrightarrow> Mat_val cost (i - 1) j \<le> Mat_val cost (i - 1) (j - 1)) \<and>
              (j < cols energy - 1 \<longrightarrow> Mat_val cost (i - 1) j \<le> Mat_val cost (i - 1) (j + 1))) \<and>
           (off = - 1 \<longleftrightarrow>
              0 < j \<and> Mat_val cost (i - 1) (j - 1) < Mat_val cost (i - 1) j \<and>
              (j < cols energy - 1 \<longrightarrow> Mat_val cost (i - 1) (j - 1) \<le> Mat_val cost (i - 1) (j + 1))) \<and>
           (off = 1 \<longleftrightarrow>
              j < cols energy - 1 \<and> Mat_val cost (i - 1) (j + 1) < Mat_val cost (i - 1) j \<and>
              (0 < j \<longrightarrow> Mat_val cost (i - 1) (j + 1) < Mat_val cost (i - 1) (j - 1))))) \<and>
     min_element cost (rows energy - 1) (cols energy) = Some (seam ! nat (rows energy - 1)) \<and>
     (\<forall>j. 0 \<le> j \<and> j < cols energy \<longrightarrow>
        Mat_val cost (rows energy - 1) (seam ! nat (rows energy - 1)) \<le> Mat_val cost (rows energy - 1) j) \<and>
     (\<forall>j. 0 \<le> j \<and> j < seam ! nat (rows energy - 1) \<longrightarrow>
        Mat_val cost (rows energy - 1) (seam ! nat (rows energy - 1)) < Mat_val cost (rows energy - 1) j) \<and>
     (\<forall>i. 0 \<le> i \<and> i \<le> rows energy - 2 \<longrightarrow>
        Mat_at backtrack (i + 1) (seam ! nat (i + 1)) = Some (seam ! nat i - seam ! nat (i + 1))) \<and>
     (\<forall>s. int (length s) = rows energy \<and>
          min_element cost (rows energy - 1) (cols energy) = Some (s ! nat (rows energy - 1)) \<and>
          (\<forall>i. 0 \<le> i \<and> i \<le> rows energy - 2 \<longrightarrow>
             Mat_at backtrack (i + 1) (s ! nat (i + 1)) = Some (s ! nat i - s ! nat (i + 1))) \<longrightarrow>
          s = seam)"
proof -
  let ?h = "rows energy" and ?w = "cols energy"
  from findSeam_char[OF assms]
  obtain cost bt seam where c: "findSeam_tables energy = Some (cost, bt)" "findSeam energy = Some seam"
     "dp_inv energy cost ?h" "rows bt = ?h" "cols bt = ?w"
     "\<forall>a b. inside energy a b \<and> 1 \<le> a \<longrightarrow> cell bt (a, b) = Some (dp_off energy a b)"
     "min_element cost (?h - 1) ?w = Some (seam ! nat (?h - 1))"
     "int (length seam) = ?h"
     "\<forall>k. 0 \<le> k \<and> k < ?h \<longrightarrow> 0 \<le> seam ! nat k \<and> seam ! nat k < ?w"
     "\<forall>k. 0 \<le> k \<and> k \<le> ?h - 2 \<longrightarrow>
        seam ! nat k = seam ! nat (k + 1) + dp_off energy (k + 1) (seam ! nat (k + 1))"
     "\<forall>b. 0 \<le> b \<and> b < ?w \<longrightarrow>
        dp_row energy (nat (?h - 1)) (seam ! nat (?h - 1)) \<le> dp_row energy (nat (?h - 1)) b"
     "\<forall>b. 0 \<le> b \<and> b < seam ! nat (?h - 1) \<longrightarrow>
        dp_row energy (nat (?h - 1)) (seam ! nat (?h - 1)) < dp_row energy (nat (?h - 1)) b"
    by blast
  have val: "Mat_val cost i j = dp_row energy (nat i) j" if "0 \<le> i" "i < ?h" "0 \<le> j" "j < ?w" for i j
    using dp_inv_val[OF c(3) that(1,2,2,3,4)] .
  have btat: "Mat_at bt i j = Some (dp_off energy i j)" if "1 \<le> i" "i < ?h" "0 \<le> j" "j < ?w" for i j
  proof -
    have "inside energy i j" using that by (simp add: inside_def)
    then have "cell bt (i, j) = Some (dp_off energy i j)" using c(6) that(1) by blast
    moreover have "inside bt i j" using that c(4,5) by (simp add: inside_def)
    ultimately show ?thesis by (simp add: Mat_at_inside)
  qed
  let ?k = "seam ! nat (?h - 1)"
  have k: "0 \<le> ?k" "?k < ?w" using c(9)[rule_format, of "?h - 1"] assms(2) by auto
  have A: "\<exists>off. Mat_at bt i j = Some off \<and>
           (off = 0 \<longleftrightarrow>
              (0 < j \<longrightarrow> Mat_val cost (i - 1) j \<le> Mat_val cost (i - 1) (j - 1)) \<and>
              (j < ?w - 1 \<longrightarrow> Mat_val cost (i - 1) j \<le> Mat_val cost (i - 1) (j + 1))) \<and>
           (off = - 1 \<longleftrightarrow>
              0 < j \<and> Mat_val cost (i - 1) (j - 1) < Mat_val cost (i - 1) j \<and>
              (j < ?w - 1 \<longrightarrow> Mat_val cost (i - 1) (j - 1) \<le> Mat_val cost (i - 1) (j + 1))) \<and>
           (off = 1 \<longleftrightarrow>
              j < ?w - 1 \<and> Mat_val cost (i - 1) (j + 1) < Mat_val cost (i - 1) j \<and>
              (0 < j \<longrightarrow> Mat_val cost (i - 1) (j + 1) < Mat_val cost (i - 1) (j - 1)))"
    if ij: "1 \<le> i \<and> i < ?h \<and> 0 \<le> j \<and> j < ?w" for i j
  proof -
    let ?f = "dp_row energy (nat (i - 1))"
    have j: "0 \<le> j" "j < ?w" using ij by auto
    have v0: "Mat_val cost (i - 1) j = ?f j" using ij by (intro val) auto
    have v1: "0 < j \<Longrightarrow> Mat_val cost (i - 1) (j - 1) = ?f (j - 1)" using ij by (intro val) auto
    have v2: "j < ?w - 1 \<Longrightarrow> Mat_val cost (i - 1) (j + 1) = ?f (j + 1)" using ij by (intro val) auto
    have b: "Mat_at bt i j = Some (snd (best_above ?f ?w j))"
      using btat[of i j] ij by (simp add: dp_off_def)
    note t = best_above_snd_iff[OF j, of ?f]
    show ?thesis
      apply (rule exI[of _ "snd (best_above ?f ?w j)"])
      apply (intro conjI b)
      subgoal using t(1) v0 v1 v2 by auto
      subgoal using t(2) v0 v1 v2 by auto
      subgoal using t(3) v0 v1 v2 by auto
      done
  qed
  have B: "\<forall>j. 0 \<le> j \<and> j < ?w \<longrightarrow> Mat_val cost (?h - 1) ?k \<le> Mat_val cost (?h - 1) j"
  proof (intro allI impI)
    fix j assume j: "0 \<le> j \<and> j < ?w"
    have "Mat_val cost (?h - 1) ?k = dp_row energy (nat (?h - 1)) ?k"
      using k assms(2) by (intro val) auto
    moreover have "Mat_val cost (?h - 1) j = dp_row energy (nat (?h - 1)) j"
      using j assms(2) by (intro val) auto
    ultimately show "Mat_val cost (?h - 1) ?k \<le> Mat_val cost (?h - 1) j"
      using c(11) j by simp
  qed
  have C: "\<forall>j. 0 \<le> j \<and> j < ?k \<longrightarrow> Mat_val cost (?h - 1) ?k < Mat_val cost (?h - 1) j"
  proof (intro allI impI)
    fix j assume j: "0 \<le> j \<and> j < ?k"
    have "Mat_val cost (?h - 1) ?k = dp_row energy (nat (?h - 1)) ?k"
      using k assms(2) by (intro val) auto
    moreover have "Mat_val cost (?h - 1) j = dp_row energy (nat (?h - 1)) j"
      using j k assms(2) by (intro val) auto
    ultimately show "Mat_val cost (?h - 1) ?k < Mat_val cost (?h - 1) j"
      using c(12) j by simp
  qed
  have D: "\<forall>i. 0 \<le> i \<and> i \<le> ?h - 2 \<longrightarrow>
        Mat_at bt (i + 1) (seam ! nat (i + 1)) = Some (seam ! nat i - seam ! nat (i + 1))"
  proof (intro allI impI)
    fix i assume i: "0 \<le> i \<and> i \<le> ?h - 2"
    have r: "0 \<le> seam ! nat (i + 1) \<and> seam ! nat (i + 1) < ?w"
      using c(9)[rule_format, of "i + 1"] i by auto
    have "Mat_at bt (i + 1) (seam ! nat (i + 1)) = Some (dp_off energy (i + 1) (seam ! nat (i + 1)))"
      using i r by (intro btat) auto
    moreover have "seam ! nat i = seam ! nat (i + 1) + dp_off energy (i + 1) (seam ! nat (i + 1))"
      using c(10) i by blast
    ultimately show "Mat_at bt (i + 1) (seam ! nat (i + 1)) = Some (seam ! nat i - seam ! nat (i + 1))"
      by simp
  qed
  have E: "s = seam"
    if s: "int (length s) = ?h \<and>
          min_element cost (?h - 1) ?w = Some (s ! nat (?h - 1)) \<and>
          (\<forall>i. 0 \<le> i \<and> i \<le> ?h - 2 \<longrightarrow>
             Mat_at bt (i + 1) (s ! nat (i + 1)) = Some (s ! nat i - s ! nat (i + 1)))" for s
  proof (rule follow_unique[of s seam bt])
    show "length s = length seam" using s c(8) by simp
    have "nat (?h - 1) = length seam - 1" using c(8) by auto
    then show "s ! (length seam - 1) = seam ! (length seam - 1)"
      using s c(7) by simp
    show "\<forall>i. 0 \<le> i \<and> i \<le> int (length seam) - 2 \<longrightarrow>
        Mat_at bt (i + 1) (s ! nat (i + 1)) = Some (s ! nat i - s ! nat (i + 1))"
      using s c(8) by simp
    show "\<forall>i. 0 \<le> i \<and> i \<le> int (length seam) - 2 \<longrightarrow>
        Mat_at bt (i + 1) (seam ! nat (i + 1)) = Some (seam ! nat i - seam ! nat (i + 1))"
      using D c(8) by simp
  qed
  show ?thesis
    using c(1,2,7) A B C D E by blast
qed

theorem findSeam_tie_break_witness:
  "Mat_full field_ties \<and> 1 \<le> rows field_ties \<and> 1 \<le> cols field_ties \<and>
   map_option (to_rows \<circ> snd) (findSeam_tables field_ties) =
     Some [[None, None, None, None], [Some 1, Some 0, Some 0, Some (- 1)]] \<and>
   (\<exists>cost backtrack. findSeam_tables field_ties = Some (cost, backtrack) \<and>
      min_element cost 1 4 = Some 0 \<and> Mat_at backtrack 1 0 = Some 1)"
proof -
  have h: "Mat_full field_ties" "1 \<le> rows field_ties" "1 \<le> cols field_ties"
    by code_simp+
  have d: "rows field_ties = 2" "cols field_ties = 4" by code_simp+
  have v: "findSeam field_ties = Some [1, 0]" by code_simp
  have t: "map_option (to_rows \<circ> snd) (findSeam_tables field_ties) =
     Some [[None, None, None, None], [Some 1, Some 0, Some 0, Some (- 1)]]"
    by code_simp
  from findSeam_tie_break[OF h]
  obtain cost backtrack seam where c: "findSeam_tables field_ties = Some (cost, backtrack)"
     "findSeam field_ties = Some seam"
     "min_element cost (rows field_ties - 1) (cols field_ties) = Some (seam ! nat (rows field_ties - 1))"
     "\<forall>i. 0 \<le> i \<and> i \<le> rows field_ties - 2 \<longrightarrow>
        Mat_at backtrack (i + 1) (seam ! nat (i + 1)) = Some (seam ! nat i - seam ! nat (i + 1))"
    by blast
  have s: "seam = [1, 0]" using c(2) v by simp
  have m: "min_element cost 1 4 = Some 0" using c(3) s d by simp
  have b: "Mat_at backtrack 1 0 = Some 1" using c(4)[rule_format, of 0] s d by simp
  show ?thesis using h t c(1) m b by blast
qed

text \<open>
  Claim C6 (dimension errors), as the code has it. \<^verbatim>\<open>findSeam\<close> checks no dimension and
  has no error result. On a field with at least one row and one column it returns a
  seam with one entry per row. On a field of one row and no column it returns the seam
  \<open>[0]\<close>. On a field of two or more rows and no column, and on a field without rows, an
  access leaves a buffer and the result is undefined.
\<close>

theorem findSeam_no_dimension_check:
  "(Mat_full energy \<and> 1 \<le> rows energy \<and> 1 \<le> cols energy \<longrightarrow>
      (\<exists>seam. findSeam energy = Some seam \<and> int (length seam) = rows energy)) \<and>
   (rows energy = 1 \<and> cols energy = 0 \<longrightarrow> findSeam energy = Some [0]) \<and>
   (2 \<le> rows energy \<and> cols energy = 0 \<longrightarrow> findSeam energy = None) \<and>
   (rows energy \<le> 0 \<longrightarrow> findSeam energy = None)"
proof -
  have "\<exists>seam. findSeam energy = Some seam \<and> int (length seam) = rows energy"
    if "Mat_full energy \<and> 1 \<le> rows energy \<and> 1 \<le> cols energy"
  proof -
    from that findSeam_summary[of energy]
    obtain seam where "findSeam energy = Some seam" "vertical_path (rows energy) (cols energy) seam"
      by blast
    then show ?thesis by (auto simp: vertical_path_nth)
  qed
  then show ?thesis
    using findSeam_one_row_no_columns[of energy] findSeam_rows_no_columns_undefined[of energy]
      findSeam_no_rows[of energy]
    by blast
qed

theorem findSeam_no_dimension_check_witness:
  "Mat_full field_ties \<and> 1 \<le> rows field_ties \<and> 1 \<le> cols field_ties \<and>
   (\<exists>seam. findSeam field_ties = Some seam \<and> int (length seam) = rows field_ties) \<and>
   rows field_2x0 = 2 \<and> cols field_2x0 = 0 \<and> findSeam field_2x0 = None \<and>
   rows field_0x0 = 0 \<and> findSeam field_0x0 = None"
proof -
  have h: "Mat_full field_ties" "1 \<le> rows field_ties" "1 \<le> cols field_ties"
    by code_simp+
  have a: "\<exists>seam. findSeam field_ties = Some seam \<and> int (length seam) = rows field_ties"
    using findSeam_no_dimension_check[of field_ties] h by blast
  have d2: "rows field_2x0 = 2" "cols field_2x0 = 0" by code_simp+
  have b: "findSeam field_2x0 = None"
    using findSeam_no_dimension_check[of field_2x0] d2 by simp
  have d0: "rows field_0x0 = 0" by code_simp
  have c: "findSeam field_0x0 = None"
    using findSeam_no_dimension_check[of field_0x0] d0 by simp
  show ?thesis by (intro conjI h a d2 b d0 c)
qed

text \<open>
  The claim as the specification words it (every field with \<open>W < 1\<close> is rejected with an
  error) fails: on the field of one row and no column \<^verbatim>\<open>findSeam\<close> returns a seam.
\<close>

theorem findSeam_empty_row_returns_seam:
  "rows field_1x0 = 1 \<and> cols field_1x0 = 0 \<and> findSeam field_1x0 = Some [0]"
  by code_simp

section \<open>The seam remover\<close>

text \<open>
  Claim C3 (pixel conservation). For every \<open>H\<close> by \<open>W\<close> image with \<open>W \<ge> 2\<close> and every seam
  of \<open>H\<close> entries with \<open>0 \<le> seam[i] \<le> W - 1\<close>, \<^verbatim>\<open>removeSeam\<close> returns an image of \<open>H\<close> rows
  and \<open>W - 1\<close> columns in which the pixel at \<open>(i, j)\<close> is the input pixel at \<open>(i, j)\<close> when
  \<open>j < seam[i]\<close> and the input pixel at \<open>(i, j + 1)\<close> when \<open>j \<ge> seam[i]\<close>: pixels are moved,
  never changed.
\<close>

theorem removeSeam_shifts_pixels:
  assumes "Mat_full image'" and "2 \<le> cols image'" and "int (length seam) = rows image'"
    and "\<forall>i. 0 \<le> i \<and> i < rows image' \<longrightarrow> 0 \<le> seam ! nat i \<and> seam ! nat i \<le> cols image' - 1"
  shows "\<exists>output. removeSeam image' seam = Some output \<and>
     rows output = rows image' \<and> cols output = cols image' - 1 \<and>
     (\<forall>i j. 0 \<le> i \<and> i < rows image' \<and> 0 \<le> j \<and> j < cols image' - 1 \<longrightarrow>
        Mat_at output i j \<noteq> None \<and>
        Mat_at output i j = (if j < seam ! nat i then Mat_at image' i j else Mat_at image' i (j + 1)))"
proof -
  let ?h = "rows image'" and ?w = "cols image'"
  let ?o = "\<lparr>rows = ?h, cols = ?w - 1, cell = (\<lambda>p. None)\<rparr> :: Vec3b Mat"
  let ?r = "\<lparr>rows = ?h, cols = ?w - 1, cell = rows_done image' seam ?h ?w ?o 0\<rparr>"
  have h: "0 \<le> ?h" using assms(3) by linarith
  have ok: "seam_ok ?w seam k" if "0 \<le> k" "k < ?h" for k
    using that assms(3,4) by (simp add: seam_ok_def)
  have r: "removeSeam image' seam = Some ?r"
    using assms(1) h assms(2) ok by (intro removeSeam_ok) auto
  have px: "Mat_at ?r i j \<noteq> None \<and>
        Mat_at ?r i j = (if j < seam ! nat i then Mat_at image' i j else Mat_at image' i (j + 1))"
    if ij: "0 \<le> i \<and> i < ?h \<and> 0 \<le> j \<and> j < ?w - 1" for i j
  proof -
    have i1: "inside image' i j" "inside image' i (j + 1)" using ij by (auto simp: inside_def)
    have ir: "inside ?r i j" using ij by (simp add: inside_def)
    have "Mat_at ?r i j = (if j < seam ! nat i then cell image' (i, j) else cell image' (i, j + 1))"
      using ij by (simp add: Mat_at_inside[OF ir] rows_done_def)
    moreover have "Mat_at image' i j = cell image' (i, j)" "Mat_at image' i (j + 1) = cell image' (i, j + 1)"
      using i1 by (simp_all add: Mat_at_inside)
    moreover have "cell image' (i, j) \<noteq> None" "cell image' (i, j + 1) \<noteq> None"
      using Mat_full_cell[OF assms(1) i1(1)] Mat_full_cell[OF assms(1) i1(2)] by auto
    ultimately show ?thesis by simp
  qed
  have d: "rows ?r = ?h" "cols ?r = ?w - 1" by simp_all
  from r d px show ?thesis by blast
qed

theorem removeSeam_shifts_pixels_witness:
  "Mat_full image_2x3 \<and> 2 \<le> cols image_2x3 \<and> int (length [1, 2 :: int]) = rows image_2x3 \<and>
   list_all (\<lambda>i. 0 \<le> [1, 2 :: int] ! nat i \<and> [1, 2 :: int] ! nat i \<le> cols image_2x3 - 1)
     [0..rows image_2x3 - 1] \<and>
   map_option to_rows (removeSeam image_2x3 [1, 2 :: int]) =
     Some [[Some (1, 2, 3), Some (7, 8, 9)], [Some (10, 11, 12), Some (13, 14, 15)]] \<and>
   (\<exists>output. removeSeam image_2x3 [1, 2 :: int] = Some output \<and>
     rows output = rows image_2x3 \<and> cols output = cols image_2x3 - 1 \<and>
     (\<forall>i j. 0 \<le> i \<and> i < rows image_2x3 \<and> 0 \<le> j \<and> j < cols image_2x3 - 1 \<longrightarrow>
        Mat_at output i j \<noteq> None \<and>
        Mat_at output i j =
          (if j < [1, 2 :: int] ! nat i then Mat_at image_2x3 i j else Mat_at image_2x3 i (j + 1))))"
proof -
  have d: "rows image_2x3 = 2" "cols image_2x3 = 3" by code_simp+
  have h1: "Mat_full image_2x3" by code_simp
  have h2: "2 \<le> cols image_2x3" using d by simp
  have h3: "int (length [1, 2 :: int]) = rows image_2x3" using d by simp
  have h4: "\<forall>i. 0 \<le> i \<and> i < rows image_2x3 \<longrightarrow>
      0 \<le> [1, 2 :: int] ! nat i \<and> [1, 2 :: int] ! nat i \<le> cols image_2x3 - 1"
  proof (intro allI impI)
    fix i :: int assume "0 \<le> i \<and> i < rows image_2x3"
    then have "i = 0 \<or> i = 1" using d by auto
    then show "0 \<le> [1, 2 :: int] ! nat i \<and> [1, 2 :: int] ! nat i \<le> cols image_2x3 - 1"
      using d by auto
  qed
  have v: "map_option to_rows (removeSeam image_2x3 [1, 2 :: int]) =
     Some [[Some (1, 2, 3), Some (7, 8, 9)], [Some (10, 11, 12), Some (13, 14, 15)]]"
    by code_simp
  have l4: "list_all (\<lambda>i. 0 \<le> [1, 2 :: int] ! nat i \<and> [1, 2 :: int] ! nat i \<le> cols image_2x3 - 1)
     [0..rows image_2x3 - 1]"
    by code_simp
  show ?thesis by (intro conjI h1 h2 h3 l4 v removeSeam_shifts_pixels[OF h1 h2 h3 h4])
qed

text \<open>
  Claim C7 (seam errors), as the code has it. \<^verbatim>\<open>removeSeam\<close> checks nothing and has no
  error result. Whenever the seam has at least \<open>H\<close> entries and each of the first \<open>H\<close> is
  a column of the image, it returns the image of \<open>H\<close> rows and \<open>W - 1\<close> columns; the
  entries after the first \<open>H\<close> are never read, so a seam that is too long is accepted and
  gives the image that its first \<open>H\<close> entries give. For other seams nothing is stated:
  the accesses are unchecked, and what they do depends on where they fall in the
  buffers.
\<close>

theorem removeSeam_unchecked:
  assumes "Mat_full image'" and "0 \<le> rows image'" and "1 \<le> cols image'"
    and "rows image' \<le> int (length seam)"
    and "\<forall>i. 0 \<le> i \<and> i < rows image' \<longrightarrow> 0 \<le> seam ! nat i \<and> seam ! nat i \<le> cols image' - 1"
  shows "\<exists>output. removeSeam image' seam = Some output \<and>
     rows output = rows image' \<and> cols output = cols image' - 1 \<and>
     removeSeam image' (seam @ extra) = Some output \<and>
     removeSeam image' (take (nat (rows image')) seam) = Some output"
proof -
  let ?h = "rows image'" and ?w = "cols image'"
  let ?o = "\<lparr>rows = ?h, cols = ?w - 1, cell = (\<lambda>p. None)\<rparr> :: Vec3b Mat"
  let ?r = "\<lambda>sm. \<lparr>rows = ?h, cols = ?w - 1, cell = rows_done image' sm ?h ?w ?o 0\<rparr>"
  have lt: "nat k < length seam" if "0 \<le> k" "k < ?h" for k
    using that assms(4) by linarith
  have n1: "(seam @ extra) ! nat k = seam ! nat k" if "0 \<le> k" "k < ?h" for k
    using lt[OF that] by (simp add: nth_append)
  have n2: "take (nat ?h) seam ! nat k = seam ! nat k" if "0 \<le> k" "k < ?h" for k
    using that by simp
  have ok0: "seam_ok ?w seam k" if "0 \<le> k" "k < ?h" for k
    using that lt[OF that] assms(5) by (simp add: seam_ok_def)
  have ok1: "seam_ok ?w (seam @ extra) k" if "0 \<le> k" "k < ?h" for k
    using that lt[OF that] n1[OF that] assms(5) by (simp add: seam_ok_def)
  have ok2: "seam_ok ?w (take (nat ?h) seam) k" if "0 \<le> k" "k < ?h" for k
    using that lt[OF that] n2[OF that] assms(5) by (simp add: seam_ok_def)
  have r0: "removeSeam image' seam = Some (?r seam)"
    using assms(1,2,3) ok0 by (rule removeSeam_ok)
  have r1: "removeSeam image' (seam @ extra) = Some (?r (seam @ extra))"
    using assms(1,2,3) ok1 by (rule removeSeam_ok)
  have r2: "removeSeam image' (take (nat ?h) seam) = Some (?r (take (nat ?h) seam))"
    using assms(1,2,3) ok2 by (rule removeSeam_ok)
  have e1: "rows_done image' (seam @ extra) ?h ?w ?o 0 = rows_done image' seam ?h ?w ?o 0"
    using n1 by (auto simp: rows_done_def fun_eq_iff)
  have e2: "rows_done image' (take (nat ?h) seam) ?h ?w ?o 0 = rows_done image' seam ?h ?w ?o 0"
    using n2 by (auto simp: rows_done_def fun_eq_iff)
  show ?thesis
    using r0 r1 r2 e1 e2 by (intro exI[of _ "?r seam"]) simp
qed

theorem removeSeam_unchecked_witness:
  "Mat_full image_1x2 \<and> 0 \<le> rows image_1x2 \<and> 1 \<le> cols image_1x2 \<and>
   rows image_1x2 \<le> int (length [1, 7 :: int]) \<and>
   map_option to_rows (removeSeam image_1x2 [1, 7]) = Some [[Some (1, 2, 3)]] \<and>
   removeSeam image_1x2 ([1, 7] @ [5]) = removeSeam image_1x2 [1, 7] \<and>
   removeSeam image_1x2 (take (nat (rows image_1x2)) [1, 7]) = removeSeam image_1x2 [1, 7]"
proof -
  have d: "rows image_1x2 = 1" "cols image_1x2 = 2" by code_simp+
  have h: "Mat_full image_1x2" "0 \<le> rows image_1x2" "1 \<le> cols image_1x2"
    by code_simp+
  have l: "rows image_1x2 \<le> int (length [1, 7 :: int])" using d by simp
  have r: "\<forall>i. 0 \<le> i \<and> i < rows image_1x2 \<longrightarrow>
      0 \<le> [1, 7 :: int] ! nat i \<and> [1, 7 :: int] ! nat i \<le> cols image_1x2 - 1"
  proof (intro allI impI)
    fix i :: int assume "0 \<le> i \<and> i < rows image_1x2"
    then have "i = 0" using d by simp
    then show "0 \<le> [1, 7 :: int] ! nat i \<and> [1, 7 :: int] ! nat i \<le> cols image_1x2 - 1"
      using d by simp
  qed
  have v: "map_option to_rows (removeSeam image_1x2 [1, 7]) = Some [[Some (1, 2, 3)]]"
    by code_simp
  from removeSeam_unchecked[OF h l r, of "[5]"]
  have a: "removeSeam image_1x2 ([1, 7] @ [5]) = removeSeam image_1x2 [1, 7]"
    and b: "removeSeam image_1x2 (take (nat (rows image_1x2)) [1, 7]) = removeSeam image_1x2 [1, 7]"
    by auto
  show ?thesis by (intro conjI h l v a b)
qed

text \<open>
  The claim as the specification words it (a seam whose length differs from \<open>H\<close> is
  rejected) fails: a seam of two entries on an image of one row is accepted.
\<close>

theorem removeSeam_accepts_long_seam:
  "int (length [0, 0 :: int]) \<noteq> rows image_1x2 \<and>
   map_option to_rows (removeSeam image_1x2 [0, 0]) = Some [[Some (4, 5, 6)]]"
  by code_simp

text \<open>
  Two seams with an entry that is no column of the 2 by 3 image: the entry 3 in row 0
  and the entry \<open>-1\<close> in row 1. The unchecked writes fall into the other row of the
  output, no access leaves a buffer, and an image is returned.
\<close>

lemma removeSeam_out_of_row_writes:
  "map_option to_rows (removeSeam image_2x3 [3, 0]) =
     Some [[Some (1, 2, 3), Some (4, 5, 6)], [Some (13, 14, 15), Some (16, 17, 18)]] \<and>
   map_option to_rows (removeSeam image_2x3 [0, - 1]) =
     Some [[Some (4, 5, 6), Some (10, 11, 12)], [Some (13, 14, 15), Some (16, 17, 18)]]"
  by code_simp

section \<open>The driver\<close>

text \<open>
  Claim C8 (dimensions). For every image of \<open>H \<ge> 1\<close> rows and \<open>W\<close> columns and every \<open>N\<close>
  with \<open>0 \<le> N < W\<close>, \<^verbatim>\<open>seamCarving\<close> returns an image of \<open>H\<close> rows and \<open>W - N\<close> columns,
  and for \<open>N = 0\<close> the image returned is the input. The library functions are assumed to
  return matrices of the size of their argument.
\<close>

theorem seamCarving_dimensions:
  assumes "opencv_contract cv" and "Mat_full image'" and "1 \<le> rows image'"
    and "0 \<le> numSeams" and "numSeams < cols image'"
  shows "\<exists>output. snd (seamCarving cv image' numSeams) = Some output \<and>
     rows output = rows image' \<and> cols output = cols image' - numSeams \<and> Mat_full output \<and>
     (numSeams = 0 \<longrightarrow> output = image')"
proof -
  from seamCarving_loop_ok[OF assms(1,2,3), of 0 numSeams] assms(4,5)
  obtain out where o: "seamCarving_loop cv image' numSeams 0 = Some out" "rows out = rows image'"
     "cols out = cols image' - numSeams" "Mat_full out"
    by auto
  have z: "out = image'" if "numSeams = 0"
    using o(1) that by (subst (asm) seamCarving_loop.simps) simp
  have "snd (seamCarving cv image' numSeams) = Some out"
    using assms(5) o(1) by (simp add: seamCarving_def)
  then show ?thesis using o(2,3,4) z by blast
qed

theorem seamCarving_dimensions_witness:
  "opencv_contract ref_cv \<and> Mat_full image_3x4 \<and> 1 \<le> rows image_3x4 \<and> (0::int) \<le> 2 \<and>
   2 < cols image_3x4 \<and>
   map_option to_rows (snd (seamCarving ref_cv image_3x4 2)) =
     Some [[Some (10, 10, 10), Some (200, 200, 200)],
           [Some (10, 10, 10), Some (20, 20, 20)],
           [Some (10, 10, 10), Some (20, 20, 20)]] \<and>
   (\<exists>output. snd (seamCarving ref_cv image_3x4 2) = Some output \<and>
     rows output = 3 \<and> cols output = 2 \<and> Mat_full output)"
proof -
  have d: "rows image_3x4 = 3" "cols image_3x4 = 4" by code_simp+
  have h: "Mat_full image_3x4" "1 \<le> rows image_3x4" "(0::int) \<le> 2" "2 < cols image_3x4"
    by code_simp+
  have v: "map_option to_rows (snd (seamCarving ref_cv image_3x4 2)) =
     Some [[Some (10, 10, 10), Some (200, 200, 200)],
           [Some (10, 10, 10), Some (20, 20, 20)],
           [Some (10, 10, 10), Some (20, 20, 20)]]"
    by code_simp
  have "\<exists>output. snd (seamCarving ref_cv image_3x4 2) = Some output \<and>
     rows output = 3 \<and> cols output = 2 \<and> Mat_full output"
    using seamCarving_dimensions[OF ref_cv_contract h] d by auto
  then show ?thesis using ref_cv_contract h v by blast
qed

text \<open>
  Claim C10 (what the driver does with an invalid count). For every image of width \<open>W\<close>
  and every \<open>N\<close> with \<open>N \<ge> W\<close> or \<open>N < 0\<close>, \<^verbatim>\<open>seamCarving\<close> returns normally and the image
  returned equals the input: the branch for \<open>N \<ge> W\<close> returns a copy of the input, and for
  \<open>N < 0\<close> the carving loop runs no iteration.
\<close>

theorem seamCarving_invalid_count_returns_input:
  assumes "numSeams \<ge> cols image' \<or> numSeams < 0"
  shows "snd (seamCarving cv image' numSeams) = Some image' \<and>
         (numSeams < 0 \<longrightarrow> seamCarving_loop cv image' numSeams 0 = Some image')"
proof -
  have l: "seamCarving_loop cv image' numSeams 0 = Some image'" if "numSeams < 0"
    using that by (subst seamCarving_loop.simps) simp
  show ?thesis
  proof (cases "numSeams \<ge> cols image'")
    case True
    then show ?thesis using l by (simp add: seamCarving_def)
  next
    case False
    then have "numSeams < 0" using assms by simp
    then show ?thesis using False l by (simp add: seamCarving_def)
  qed
qed

theorem seamCarving_invalid_count_returns_input_witness:
  "((7::int) \<ge> cols image_2x3 \<or> (7::int) < 0) \<and>
   snd (seamCarving ref_cv image_2x3 7) = Some image_2x3 \<and>
   ((- 1::int) \<ge> cols image_2x3 \<or> (- 1::int) < 0) \<and>
   snd (seamCarving ref_cv image_2x3 (- 1)) = Some image_2x3"
proof -
  have d: "cols image_2x3 = 3" by code_simp
  have a: "(7::int) \<ge> cols image_2x3 \<or> (7::int) < 0" using d by simp
  have b: "(- 1::int) \<ge> cols image_2x3 \<or> (- 1::int) < 0" by simp
  show ?thesis
    using a b seamCarving_invalid_count_returns_input[OF a, of ref_cv]
      seamCarving_invalid_count_returns_input[OF b, of ref_cv]
    by blast
qed

text \<open>
  Claim C2 (refusal), as the code has it. For every image of width \<open>W\<close> and every
  \<open>N \<ge> W\<close>, \<^verbatim>\<open>seamCarving\<close> does not fail: it writes one diagnostic line that carries \<open>N\<close>
  and \<open>W\<close> and returns an unmodified copy of the input image.
\<close>

theorem seamCarving_too_many_seams:
  assumes "numSeams \<ge> cols image'"
  shows "seamCarving cv image' numSeams =
     ([Str ''Error: numSeams ('', Num numSeams, Str '') exceeds image width ('',
       Num (cols image'), Str '')!'', Endl],
      Some image')"
  using assms by (simp add: seamCarving_def)

theorem seamCarving_too_many_seams_witness:
  "(2::int) \<ge> cols image_1x2 \<and>
   seamCarving ref_cv image_1x2 2 =
     ([Str ''Error: numSeams ('', Num 2, Str '') exceeds image width ('', Num 2, Str '')!'', Endl],
      Some image_1x2)"
proof -
  have d: "cols image_1x2 = 2" by code_simp
  have a: "(2::int) \<ge> cols image_1x2" using d by simp
  show ?thesis using a seamCarving_too_many_seams[OF a, of ref_cv] d by simp
qed

text \<open>
  The claim as the specification words it (no image is returned when \<open>N \<ge> W\<close> or
  \<open>N < 0\<close>) fails: on the 4 by 4 uniform image the counts 4, 9 and \<open>-3\<close> all return the
  input image.
\<close>

theorem seamCarving_returns_image_on_excess:
  "snd (seamCarving ref_cv image_uniform 4) = Some image_uniform \<and>
   snd (seamCarving ref_cv image_uniform 9) = Some image_uniform \<and>
   snd (seamCarving ref_cv image_uniform (- 3)) = Some image_uniform"
proof -
  have d: "cols image_uniform = 4" by code_simp
  have l: "seamCarving_loop ref_cv image_uniform (- 3) 0 = Some image_uniform"
    by (subst seamCarving_loop.simps) simp
  show ?thesis using d l by (simp add: seamCarving_def)
qed

end
